theory Spec2Isabelle
  imports Main "HOL-Library.Sublist"
begin

section \<open>The build script \<^verbatim>\<open>build.cjs\<close>\<close>

text \<open>
  The script assembles a distributable bundle in the directory \<^verbatim>\<open>build\<close>: it merges the
  translation files, stamps the manifest with the package version, packs two directories
  into archives, runs the linter and the bundler, inlines the compiled style sheets and
  scripts into three HTML documents and deletes the intermediates.

  Text is modelled as \<^typ>\<open>string\<close>, one character per code unit of the decoded file. A
  path is the list of its components below the working directory, so that
  \<^verbatim>\<open>./build/assets\<close> and \<^verbatim>\<open>build/assets\<close> are both \<open>[''build'', ''assets'']\<close>.
\<close>

subsection \<open>Strings: \<^verbatim>\<open>String.prototype.indexOf\<close> and \<^verbatim>\<open>String.prototype.replace\<close>\<close>

text \<open>
  \<^verbatim>\<open>s.indexOf(p)\<close>: the least position at which \<open>p\<close> starts in \<open>s\<close>; the value \<^verbatim>\<open>-1\<close> of
  the runtime is \<open>None\<close> here.
\<close>

fun indexOf :: "string \<Rightarrow> string \<Rightarrow> nat option" where
  "indexOf [] p = (if p = [] then Some 0 else None)"
| "indexOf (c # cs) p =
     (if prefix p (c # cs) then Some 0 else map_option Suc (indexOf cs p))"

text \<open>
  The replacement text of \<^verbatim>\<open>replace\<close> is a template: the runtime's \<^verbatim>\<open>GetSubstitution\<close>
  expands \<^verbatim>\<open>$$\<close> to a dollar sign, \<^verbatim>\<open>$&\<close> to the matched text, \<^verbatim>\<open>$`\<close> to the text before
  the match and \<^verbatim>\<open>$'\<close> to the text after it. The search value is a string, so there are no
  capture groups, and a dollar sign followed by anything else stands for itself.
\<close>

fun getSubstitution :: "string \<Rightarrow> string \<Rightarrow> nat \<Rightarrow> string \<Rightarrow> string" where
  "getSubstitution matched str position [] = []"
| "getSubstitution matched str position [c] = [c]"
| "getSubstitution matched str position (c # d # r) =
     (if c = CHR ''$'' then
        (if d = CHR ''$'' then CHR ''$'' # getSubstitution matched str position r
         else if d = CHR ''&'' then matched @ getSubstitution matched str position r
         else if d = CHR 0x60 then take position str @ getSubstitution matched str position r
         else if d = CHR 0x27 then
           drop (position + length matched) str @ getSubstitution matched str position r
         else c # getSubstitution matched str position (d # r))
      else c # getSubstitution matched str position (d # r))"

text \<open>
  \<^verbatim>\<open>s.replace(searchValue, replaceValue)\<close> with two strings: only the first occurrence
  of the search string is replaced, and a string without the search string is returned
  as it is.
\<close>

definition js_replace :: "string \<Rightarrow> string \<Rightarrow> string \<Rightarrow> string" where
  "js_replace s searchValue replaceValue =
     (case indexOf s searchValue of
        None \<Rightarrow> s
      | Some position \<Rightarrow>
          take position s
          @ getSubstitution searchValue s position replaceValue
          @ drop (position + length searchValue) s)"

text \<open>The number of positions at which \<open>p\<close> starts in \<open>s\<close>.\<close>

fun occurrences :: "string \<Rightarrow> string \<Rightarrow> nat" where
  "occurrences p [] = (if p = [] then 1 else 0)"
| "occurrences p (c # cs) = (if prefix p (c # cs) then 1 else 0) + occurrences p cs"

subsection \<open>The file system\<close>

type_synonym path = "string list"

datatype node = File string | Dir

text \<open>
  The file system is a table from paths to nodes. The working directory, the empty path,
  is always a directory.
\<close>

type_synonym fs = "(path \<times> node) list"

datatype error =
    ENOENT path
  | EISDIR path
  | ENOTDIR path
  | EEXIST path
  | EINVAL path
  | SyntaxError
  | TypeError
  | CommandFailed string

definition lookup :: "fs \<Rightarrow> path \<Rightarrow> node option" where
  "lookup t p = (if p = [] then Some Dir else map_of t p)"

definition store :: "path \<Rightarrow> node \<Rightarrow> fs \<Rightarrow> fs" where
  "store p n t = (p, n) # filter (\<lambda>e. fst e \<noteq> p) t"

definition existsSync :: "path \<Rightarrow> fs \<Rightarrow> bool" where
  "existsSync p t = (lookup t p \<noteq> None)"

text \<open>\<^verbatim>\<open>fs.readFileSync(filePath, "utf8")\<close>, which is all that \<^verbatim>\<open>readFile\<close> does.\<close>

definition readFile :: "path \<Rightarrow> fs \<Rightarrow> error + string" where
  "readFile filePath t =
     (case lookup t filePath of
        None \<Rightarrow> Inl (ENOENT filePath)
      | Some Dir \<Rightarrow> Inl (EISDIR filePath)
      | Some (File c) \<Rightarrow> Inr c)"

text \<open>
  \<^verbatim>\<open>fs.writeFileSync\<close> truncates an existing file; it creates a new one only in a
  directory that exists.
\<close>

definition writeFileSync :: "path \<Rightarrow> string \<Rightarrow> fs \<Rightarrow> error + fs" where
  "writeFileSync p c t =
     (case lookup t p of
        Some Dir \<Rightarrow> Inl (EISDIR p)
      | Some (File x) \<Rightarrow> Inr (store p (File c) t)
      | None \<Rightarrow>
          (case lookup t (butlast p) of
             None \<Rightarrow> Inl (ENOENT p)
           | Some (File x) \<Rightarrow> Inl (ENOTDIR p)
           | Some Dir \<Rightarrow> Inr (store p (File c) t)))"

text \<open>Sequencing of steps that may throw.\<close>

definition bindE :: "'e + 'a \<Rightarrow> ('a \<Rightarrow> 'e + 'b) \<Rightarrow> 'e + 'b" where
  "bindE m f = (case m of Inl e \<Rightarrow> Inl e | Inr x \<Rightarrow> f x)"

subsection \<open>The Document Inliner: \<^verbatim>\<open>combine\<close>\<close>

definition link_app_css :: string where
  \<open>link_app_css = ''<link rel="stylesheet" href="./app.css">''\<close>

definition link_viper_lib_css :: string where
  \<open>link_viper_lib_css = ''<link rel="stylesheet" href="./viper_lib.css">''\<close>

definition script_app_js :: string where
  \<open>script_app_js = ''<script src="./app.js"></script>''\<close>

definition script_viper_lib_js :: string where
  \<open>script_viper_lib_js = ''<script src="./viper_lib.js"></script>''\<close>

definition placeholders :: "string list" where
  "placeholders = [link_app_css, link_viper_lib_css, script_app_js, script_viper_lib_js]"

text \<open>The two template literals, with the file's text between two line feeds.\<close>

definition style_block :: "string \<Rightarrow> string" where
  "style_block c = ''<style>'' @ [CHR 0x0A] @ c @ [CHR 0x0A] @ ''</style>''"

definition script_block :: "string \<Rightarrow> string" where
  "script_block c = ''<script>'' @ [CHR 0x0A] @ c @ [CHR 0x0A] @ ''</script>''"

text \<open>
  The chain of four \<^verbatim>\<open>replace\<close> calls. Each argument is evaluated just before its call,
  so the four files are read in this order, each before its own replacement, and the
  document is written only after the last one.
\<close>

definition combine :: "path \<Rightarrow> fs \<Rightarrow> error + fs" where
  "combine filePath t =
     bindE (readFile filePath t) (\<lambda>content.
     bindE (readFile [''build'', ''app.css''] t) (\<lambda>app_css.
     bindE (readFile [''build'', ''viper_lib.css''] t) (\<lambda>viper_lib_css.
     bindE (readFile [''build'', ''app.js''] t) (\<lambda>app_js.
     bindE (readFile [''build'', ''viper_lib.js''] t) (\<lambda>viper_lib_js.
       writeFileSync filePath
         (js_replace
           (js_replace
             (js_replace
               (js_replace content link_app_css (style_block app_css))
               link_viper_lib_css (style_block viper_lib_css))
             script_app_js (script_block app_js))
           script_viper_lib_js (script_block viper_lib_js))
         t)))))"

subsection \<open>The other file-system calls of the script\<close>

text \<open>\<^verbatim>\<open>unlinkSync\<close> removes a file and throws when there is none.\<close>

definition unlinkSync :: "path \<Rightarrow> fs \<Rightarrow> error + fs" where
  "unlinkSync p t =
     (case lookup t p of
        None \<Rightarrow> Inl (ENOENT p)
      | Some Dir \<Rightarrow> Inl (EISDIR p)
      | Some (File x) \<Rightarrow> Inr (filter (\<lambda>e. fst e \<noteq> p) t))"

text \<open>
  \<^verbatim>\<open>copyFileSync(src, dest)\<close> with the default mode, which overwrites the destination.
\<close>

definition copyFileSync :: "path \<Rightarrow> path \<Rightarrow> fs \<Rightarrow> error + fs" where
  "copyFileSync src dest t = bindE (readFile src t) (\<lambda>c. writeFileSync dest c t)"

text \<open>
  \<^verbatim>\<open>rmSync(p, { recursive: true, force: true })\<close> removes \<open>p\<close> and everything below it,
  and a path that does not exist is not an error. The file system here has no
  permissions and no locks, so the removal that the operating system refuses is not a
  case of this definition: what is proved about a run that got past it says nothing
  about a run in which it threw.
\<close>

definition rmSync :: "path \<Rightarrow> fs \<Rightarrow> error + fs" where
  "rmSync p t = Inr (filter (\<lambda>e. \<not> prefix p (fst e)) t)"

text \<open>
  \<^verbatim>\<open>mkdirSync(p, { recursive: true })\<close> creates every directory of the path that is
  missing; \<open>done\<close> is the part of the path already walked.
\<close>

fun mkdir_from :: "path \<Rightarrow> path \<Rightarrow> fs \<Rightarrow> error + fs" where
  "mkdir_from done [] t = Inr t"
| "mkdir_from done (c # cs) t =
     (case lookup t (done @ [c]) of
        Some (File x) \<Rightarrow> Inl (if cs = [] then EEXIST (done @ [c]) else ENOTDIR (done @ [c]))
      | Some Dir \<Rightarrow> mkdir_from (done @ [c]) cs t
      | None \<Rightarrow> mkdir_from (done @ [c]) cs (store (done @ [c]) Dir t))"

definition mkdirSync :: "path \<Rightarrow> fs \<Rightarrow> error + fs" where
  "mkdirSync p t = mkdir_from [] p t"

text \<open>The paths of the table, each once, and the names in a directory.\<close>

definition paths :: "fs \<Rightarrow> path list" where
  "paths t = remdups (map fst t)"

definition children :: "fs \<Rightarrow> path \<Rightarrow> string list" where
  "children t d = map last (filter (\<lambda>p. p \<noteq> [] \<and> butlast p = d) (paths t))"

definition readdirSync :: "path \<Rightarrow> fs \<Rightarrow> error + string list" where
  "readdirSync d t =
     (case lookup t d of
        None \<Rightarrow> Inl (ENOENT d)
      | Some (File x) \<Rightarrow> Inl (ENOTDIR d)
      | Some Dir \<Rightarrow> Inr (children t d))"

text \<open>
  \<^verbatim>\<open>fs.cpSync(src, dest, options)\<close>. The options not given keep their defaults; \<^verbatim>\<open>force\<close>
  is \<^verbatim>\<open>true\<close> by default, and \<^verbatim>\<open>errorOnExist\<close> is consulted only when \<^verbatim>\<open>force\<close> is
  \<^verbatim>\<open>false\<close>. The entries below the source are copied one by one, relative to the
  destination; a directory never replaces a file, nor a file a directory, and a directory
  is not copied into itself.
\<close>

record cp_options =
  recursive :: bool
  errorOnExist :: bool
  force :: bool

definition cp_entry :: "cp_options \<Rightarrow> path \<Rightarrow> path \<times> node \<Rightarrow> fs \<Rightarrow> error + fs" where
  "cp_entry opts dest e t =
     (case (snd e, lookup t (dest @ fst e)) of
        (Dir, None) \<Rightarrow> Inr (store (dest @ fst e) Dir t)
      | (Dir, Some Dir) \<Rightarrow> Inr t
      | (Dir, Some (File x)) \<Rightarrow> Inl (ENOTDIR (dest @ fst e))
      | (File c, None) \<Rightarrow> Inr (store (dest @ fst e) (File c) t)
      | (File c, Some Dir) \<Rightarrow> Inl (EISDIR (dest @ fst e))
      | (File c, Some (File x)) \<Rightarrow>
          (if force opts then Inr (store (dest @ fst e) (File c) t)
           else if errorOnExist opts then Inl (EEXIST (dest @ fst e))
           else Inr t))"

fun cp_entries :: "cp_options \<Rightarrow> path \<Rightarrow> (path \<times> node) list \<Rightarrow> fs \<Rightarrow> error + fs" where
  "cp_entries opts dest [] t = Inr t"
| "cp_entries opts dest (e # es) t = bindE (cp_entry opts dest e t) (cp_entries opts dest es)"

definition subtree :: "path \<Rightarrow> fs \<Rightarrow> (path \<times> node) list" where
  "subtree src t =
     concat (map (\<lambda>p. case lookup t p of
                        None \<Rightarrow> []
                      | Some n \<Rightarrow> [(drop (length src) p, n)])
                 (src # filter (strict_prefix src) (paths t)))"

definition cpSync :: "path \<Rightarrow> path \<Rightarrow> cp_options \<Rightarrow> fs \<Rightarrow> error + fs" where
  "cpSync src dest opts t =
     (case lookup t src of
        None \<Rightarrow> Inl (ENOENT src)
      | Some (File c) \<Rightarrow>
          bindE (mkdirSync (butlast dest) t) (cp_entries opts dest (subtree src t))
      | Some Dir \<Rightarrow>
          (if \<not> recursive opts then Inl (EISDIR src)
           else if prefix src dest then Inl (EINVAL dest)
           else bindE (mkdirSync (butlast dest) t) (cp_entries opts dest (subtree src t))))"

subsection \<open>JSON values and objects\<close>

text \<open>
  The numbers of the runtime are left abstract. An object is the list of its own
  properties in the order in which the runtime enumerates them: the array-index keys in
  ascending order first, then the other keys in the order of their creation.
\<close>

typedecl number

datatype json =
    JNull
  | JBool bool
  | JNumber number
  | JString string
  | JArray "json list"
  | JObject "(string \<times> json) list"

fun digits_value :: "string \<Rightarrow> nat \<Rightarrow> nat option" where
  "digits_value [] acc = Some acc"
| "digits_value (c # cs) acc =
     (if (48::nat) \<le> of_char c \<and> of_char c \<le> (57::nat)
      then digits_value cs (10 * acc + (of_char c - 48))
      else None)"

text \<open>A key is an array index when it is the canonical decimal form of a number below \<open>2\<^sup>3\<^sup>2 - 1\<close>.\<close>

definition array_index :: "string \<Rightarrow> nat option" where
  "array_index k =
     (if k = [] \<or> (length k > 1 \<and> hd k = CHR ''0'') then None
      else case digits_value k 0 of
        None \<Rightarrow> None
      | Some n \<Rightarrow> if n < 4294967295 then Some n else None)"

fun insert_index :: "(string \<times> json) list \<Rightarrow> string \<Rightarrow> nat \<Rightarrow> json \<Rightarrow> (string \<times> json) list" where
  "insert_index [] k n v = [(k, v)]"
| "insert_index (e # ps) k n v =
     (case array_index (fst e) of
        None \<Rightarrow> (k, v) # e # ps
      | Some m \<Rightarrow> if m < n then e # insert_index ps k n v else (k, v) # e # ps)"

text \<open>
  Defining or overwriting an own property: an existing key keeps its place, a new key
  goes where the enumeration order puts it.
\<close>

definition set_own :: "(string \<times> json) list \<Rightarrow> string \<Rightarrow> json \<Rightarrow> (string \<times> json) list" where
  "set_own ps k v =
     (if k \<in> fst ` set ps then map (\<lambda>e. if fst e = k then (k, v) else e) ps
      else case array_index k of
        None \<Rightarrow> ps @ [(k, v)]
      | Some n \<Rightarrow> insert_index ps k n v)"

text \<open>
  \<^verbatim>\<open>result[lang] = v\<close> on an object made by the literal \<^verbatim>\<open>{}\<close>. Such an object inherits
  the accessor \<^verbatim>\<open>__proto__\<close>, so that an assignment to this one key changes the prototype
  or does nothing, and never creates an own property.
\<close>

definition assign :: "(string \<times> json) list \<Rightarrow> string \<Rightarrow> json \<Rightarrow> (string \<times> json) list" where
  "assign ps k v = (if k = ''__proto__'' then ps else set_own ps k v)"

subsection \<open>What the script does not contain\<close>

text \<open>
  The external commands, the JSON codec of the runtime and the archiver are parameters:
  \<open>exec\<close> is the effect of a command on the file system, or its failure; \<open>parse\<close> reads
  a JSON text into its syntax tree, the members of every object in the order of the
  text, with \<open>None\<close> for a syntax error; \<open>stringify\<close> is \<^verbatim>\<open>JSON.stringify\<close> with an
  indentation of two; \<open>pack\<close> gives the bytes of the archive of the named entries of
  a directory; \<open>lag\<close> is the number of suspensions of \<^verbatim>\<open>main\<close> that pass before the event
  loop has finished the archives started so far.
\<close>

record tar_options =
  gzip :: bool
  tar_file :: path
  cwd :: path
  portable :: bool
  noMtime :: bool
  sync :: bool

record env =
  exec :: "string \<Rightarrow> fs \<Rightarrow> error + fs"
  parse :: "string \<Rightarrow> json option"
  stringify :: "json \<Rightarrow> string"
  pack :: "tar_options \<Rightarrow> string list \<Rightarrow> fs \<Rightarrow> string"
  lag :: nat

text \<open>
  \<^verbatim>\<open>jsonfile.writeFileSync(dst, obj, { spaces: 2, EOL: "\n" })\<close> writes the indented text
  followed by one line feed.
\<close>

definition jsonfile_writeFileSync :: "env \<Rightarrow> path \<Rightarrow> json \<Rightarrow> fs \<Rightarrow> error + fs" where
  "jsonfile_writeFileSync E dst obj t = writeFileSync dst (stringify E obj @ [CHR 0x0A]) t"

text \<open>
  \<^verbatim>\<open>JSON.parse\<close> turns the syntax tree into a value of the runtime: the members of an
  object are defined one after the other, in the order of the text, as own properties.
  A key that is repeated keeps its first place and its last value, and the array-index
  keys come first; the key \<^verbatim>\<open>__proto__\<close> is a property like any other here.
\<close>

definition object_of :: "(string \<times> json) list \<Rightarrow> (string \<times> json) list" where
  "object_of ms = fold (\<lambda>e ps. set_own ps (fst e) (snd e)) ms []"

fun internalize :: "json \<Rightarrow> json" where
  "internalize (JArray xs) = JArray (map internalize xs)"
| "internalize (JObject ms) = JObject (object_of (map (\<lambda>e. (fst e, internalize (snd e))) ms))"
| "internalize v = v"

definition JSON_parse :: "env \<Rightarrow> string \<Rightarrow> error + json" where
  "JSON_parse E text =
     (case parse E text of None \<Rightarrow> Inl SyntaxError | Some d \<Rightarrow> Inr (internalize d))"

subsection \<open>The Aggregator: \<^verbatim>\<open>genTranslations\<close>\<close>

text \<open>
  \<^verbatim>\<open>glob.sync("*.json", { cwd: src })\<close>: the names in \<open>src\<close> that end in \<^verbatim>\<open>.json\<close> and do not
  begin with a dot; a directory that does not exist has no such names.
\<close>

definition glob_match :: "string \<Rightarrow> bool" where
  "glob_match name = (name \<noteq> [] \<and> hd name \<noteq> CHR ''.'' \<and> suffix ''.json'' name)"

definition glob_sync :: "path \<Rightarrow> fs \<Rightarrow> string list" where
  "glob_sync src t = filter glob_match (children t src)"

text \<open>\<^verbatim>\<open>path.basename(file, ext)\<close> for a name without a separator.\<close>

definition basename :: "string \<Rightarrow> string \<Rightarrow> string" where
  "basename file ext =
     (if ext = file then []
      else if ext \<noteq> [] \<and> suffix ext file then take (length file - length ext) file
      else file)"

fun aggregate ::
  "env \<Rightarrow> path \<Rightarrow> fs \<Rightarrow> string list \<Rightarrow> (string \<times> json) list \<Rightarrow> error + (string \<times> json) list"
where
  "aggregate E src t [] result = Inr result"
| "aggregate E src t (file # rest) result =
     bindE (readFile (src @ [file]) t) (\<lambda>text.
     bindE (JSON_parse E text) (\<lambda>v.
       aggregate E src t rest (assign result (basename file ''.json'') v)))"

definition genTranslations :: "env \<Rightarrow> path \<Rightarrow> path \<Rightarrow> fs \<Rightarrow> error + fs" where
  "genTranslations E src dst t =
     bindE (aggregate E src t (glob_sync src t) []) (\<lambda>result.
       jsonfile_writeFileSync E dst (JObject result) t)"

subsection \<open>The Manifest Stamper: \<^verbatim>\<open>genManifest\<close>\<close>

text \<open>
  \<^verbatim>\<open>pkg.version\<close>: reading a property of \<^verbatim>\<open>null\<close> throws; a value other than an object
  has no such property, and \<open>None\<close> is \<^verbatim>\<open>undefined\<close>.
\<close>

definition get_version :: "json \<Rightarrow> error + json option" where
  "get_version pkg =
     (case pkg of
        JNull \<Rightarrow> Inl TypeError
      | JObject ps \<Rightarrow> Inr (map_of ps ''version'')
      | _ \<Rightarrow> Inr None)"

text \<open>
  \<^verbatim>\<open>result.version = v\<close>, as far as the text written afterwards shows it: the assignment
  throws on \<^verbatim>\<open>null\<close>; on a string, number or boolean it is ignored; on an array it sets a
  property that is not serialised; a property holding \<^verbatim>\<open>undefined\<close> is not serialised
  either.
\<close>

definition set_version :: "json \<Rightarrow> json option \<Rightarrow> error + json" where
  "set_version result v =
     (case result of
        JNull \<Rightarrow> Inl TypeError
      | JObject ps \<Rightarrow>
          Inr (JObject (case v of
                          None \<Rightarrow> filter (\<lambda>e. fst e \<noteq> ''version'') ps
                        | Some x \<Rightarrow> set_own ps ''version'' x))
      | _ \<Rightarrow> Inr result)"

definition genManifest :: "env \<Rightarrow> path \<Rightarrow> path \<Rightarrow> fs \<Rightarrow> error + fs" where
  "genManifest E src dst t =
     bindE (readFile [''package.json''] t) (\<lambda>pkg_text.
     bindE (JSON_parse E pkg_text) (\<lambda>pkg.
     bindE (readFile src t) (\<lambda>text.
     bindE (JSON_parse E text) (\<lambda>result.
     bindE (get_version pkg) (\<lambda>v.
     bindE (set_version result v) (\<lambda>result'.
       jsonfile_writeFileSync E dst result' t))))))"

subsection \<open>The state of a run\<close>

text \<open>
  Besides the file system, a run has the archives that were started and are not yet on
  disk, the record of what has happened so far, and the number of times \<^verbatim>\<open>main\<close> has been
  suspended.
\<close>

datatype event = Spawned string | ArchiveWritten path

record state =
  files :: fs
  pending :: "(tar_options \<times> string list) list"
  log :: "event list"
  awaits :: nat

definition lift :: "(fs \<Rightarrow> error + fs) \<Rightarrow> state \<Rightarrow> error + state" where
  "lift f st = bindE (f (files st)) (\<lambda>t. Inr (st\<lparr>files := t\<rparr>))"

subsection \<open>The Archive Builder: \<^verbatim>\<open>genTar\<close>\<close>

text \<open>
  \<^verbatim>\<open>tar.c(options, names)\<close> rejects an empty list of names at the call. With the options
  \<^verbatim>\<open>file\<close> and \<^verbatim>\<open>sync\<close> it writes the archive before it returns; with \<^verbatim>\<open>file\<close> alone it
  starts the work, returns a promise, and the archive is written by the event loop later.
\<close>

definition tar_c :: "env \<Rightarrow> tar_options \<Rightarrow> string list \<Rightarrow> state \<Rightarrow> error + state" where
  "tar_c E opts names st =
     (if names = [] then Inl TypeError
      else if sync opts then
        bindE (writeFileSync (tar_file opts) (pack E opts names (files st)) (files st))
          (\<lambda>t. Inr (st\<lparr>files := t, log := log st @ [ArchiveWritten (tar_file opts)]\<rparr>))
      else Inr (st\<lparr>pending := pending st @ [(opts, names)]\<rparr>))"

text \<open>
  \<^verbatim>\<open>genTar\<close> passes no \<^verbatim>\<open>sync\<close> option, and neither returns nor awaits the promise.
\<close>

definition genTar :: "env \<Rightarrow> path \<Rightarrow> path \<Rightarrow> state \<Rightarrow> error + state" where
  "genTar E src dst st =
     bindE (readdirSync src (files st)) (\<lambda>names.
       tar_c E \<lparr>gzip = True, tar_file = dst, cwd = src, portable = True, noMtime = True,
                sync = False\<rparr> names st)"

text \<open>
  The event loop finishing the pending archives, in the order in which they were started.
  An archive that cannot be written is a rejected promise that nobody handles, which
  ends the process.
\<close>

fun settle_jobs :: "env \<Rightarrow> (tar_options \<times> string list) list \<Rightarrow> state \<Rightarrow> error + state" where
  "settle_jobs E [] st = Inr st"
| "settle_jobs E (j # js) st =
     bindE (writeFileSync (tar_file (fst j)) (pack E (fst j) (snd j) (files st)) (files st))
       (\<lambda>t. settle_jobs E js
               (st\<lparr>files := t, log := log st @ [ArchiveWritten (tar_file (fst j))]\<rparr>))"

definition settle :: "env \<Rightarrow> state \<Rightarrow> error + state" where
  "settle E st = settle_jobs E (pending st) (st\<lparr>pending := []\<rparr>)"

subsection \<open>External commands: \<^verbatim>\<open>run\<close>\<close>

text \<open>
  \<^verbatim>\<open>await\<close> suspends \<^verbatim>\<open>main\<close>; only then can the event loop finish an archive.
\<close>

definition await :: "env \<Rightarrow> state \<Rightarrow> error + state" where
  "await E st =
     (if lag E \<le> awaits st then bindE (settle E st) (\<lambda>st'. Inr (st'\<lparr>awaits := awaits st + 1\<rparr>))
      else Inr (st\<lparr>awaits := awaits st + 1\<rparr>))"

text \<open>
  \<^verbatim>\<open>run(cmd)\<close> starts the command at once, waits for it to end, and throws again what it
  catches.
\<close>

definition run :: "env \<Rightarrow> string \<Rightarrow> state \<Rightarrow> error + state" where
  "run E cmd st =
     bindE (await E (st\<lparr>log := log st @ [Spawned cmd]\<rparr>)) (\<lambda>st'.
     bindE (exec E cmd (files st')) (\<lambda>t. Inr (st'\<lparr>files := t\<rparr>)))"

subsection \<open>The Pipeline Driver: \<^verbatim>\<open>main\<close>\<close>

text \<open>
  The statements of \<^verbatim>\<open>main\<close> run in order; the first that throws ends the run. The
  state reported with the error is the one in which that statement began: what a
  statement had written before it threw is not recorded.
\<close>

fun run_steps :: "(state \<Rightarrow> error + state) list \<Rightarrow> state \<Rightarrow> error option \<times> state" where
  "run_steps [] st = (None, st)"
| "run_steps (f # fs) st =
     (case f st of Inl e \<Rightarrow> (Some e, st) | Inr st' \<Rightarrow> run_steps fs st')"

definition reset_steps :: "(state \<Rightarrow> error + state) list" where
  "reset_steps =
     [lift (rmSync [''build'']),
      lift (mkdirSync [''build'', ''assets''])]"

definition stage_webrepl :: "state \<Rightarrow> error + state" where
  "stage_webrepl =
     lift (copyFileSync [''src'', ''webrepl_content.js''] [''build'', ''webrepl_content.js''])"

definition stage_assets :: "state \<Rightarrow> error + state" where
  "stage_assets =
     lift (cpSync [''assets''] [''build'', ''assets'']
             \<lparr>recursive = True, errorOnExist = True, force = True\<rparr>)"

definition staging_steps :: "(state \<Rightarrow> error + state) list" where
  "staging_steps = [stage_webrepl, stage_assets]"

definition generate_steps :: "env \<Rightarrow> (state \<Rightarrow> error + state) list" where
  "generate_steps E =
     [lift (genTranslations E [''src'', ''lang''] [''build'', ''translations.json'']),
      lift (genManifest E [''src'', ''manifest.json''] [''build'', ''manifest.json'']),
      genTar E [''src'', ''tools_vfs''] [''build'', ''assets'', ''tools_vfs.tar.gz''],
      genTar E [''src'', ''vm_vfs''] [''build'', ''assets'', ''vm_vfs.tar.gz'']]"

definition build_steps :: "env \<Rightarrow> (state \<Rightarrow> error + state) list" where
  "build_steps E =
     [\<lambda>st. if \<not> existsSync [''node_modules''] (files st) then run E ''npm install'' st
            else Inr st,
      run E ''npx eslint'',
      run E ''npm run build'']"

definition combine_steps :: "(state \<Rightarrow> error + state) list" where
  "combine_steps =
     [lift (combine [''build'', ''index.html'']),
      lift (combine [''build'', ''bridge.html'']),
      lift (combine [''build'', ''benchmark.html''])]"

definition cleanup_steps :: "(state \<Rightarrow> error + state) list" where
  "cleanup_steps =
     [lift (unlinkSync [''build'', ''translations.json'']),
      lift (unlinkSync [''build'', ''app.css'']),
      lift (unlinkSync [''build'', ''viper_lib.css'']),
      lift (unlinkSync [''build'', ''app.js'']),
      lift (unlinkSync [''build'', ''viper_lib.js''])]"

definition vendor_steps :: "(state \<Rightarrow> error + state) list" where
  "vendor_steps =
     [lift (copyFileSync
              [''node_modules'', ''@micropython'', ''micropython-webassembly-pyscript'',
               ''micropython.wasm'']
              [''build'', ''assets'', ''micropython.wasm'']),
      lift (copyFileSync
              [''node_modules'', ''@micropython'', ''micropython-webassembly-pyscript'',
               ''micropython.mjs'']
              [''build'', ''micropython.mjs'']),
      lift (copyFileSync
              [''node_modules'', ''@pybricks'', ''mpy-cross-v6'', ''build'', ''mpy-cross-v6.wasm'']
              [''build'', ''assets'', ''mpy-cross-v6.wasm'']),
      lift (copyFileSync
              [''node_modules'', ''@astral-sh'', ''ruff-wasm-web'', ''ruff_wasm_bg.wasm'']
              [''build'', ''assets'', ''ruff_wasm_bg.wasm''])]"

definition main_steps :: "env \<Rightarrow> (state \<Rightarrow> error + state) list" where
  "main_steps E =
     reset_steps @ staging_steps @ generate_steps E @ build_steps E
     @ combine_steps @ cleanup_steps @ vendor_steps"

definition start :: "fs \<Rightarrow> state" where
  "start t = \<lparr>files = t, pending = [], log = [], awaits = 0\<rparr>"

text \<open>
  When \<^verbatim>\<open>main\<close> has returned, the process stays alive until the event loop has finished
  what is still pending; when \<^verbatim>\<open>main\<close> has thrown, the process ends.
\<close>

definition main :: "env \<Rightarrow> fs \<Rightarrow> error option \<times> state" where
  "main E t =
     (case run_steps (main_steps E) (start t) of
        (Some e, st) \<Rightarrow> (Some e, st)
      | (None, st) \<Rightarrow>
          (case settle E st of Inl e \<Rightarrow> (Some e, st) | Inr st' \<Rightarrow> (None, st')))"

section \<open>Notions used in the proofs\<close>

text \<open>The positions at which a string starts in a text.\<close>

definition positions :: "string \<Rightarrow> string \<Rightarrow> nat set" where
  "positions p s = {j. j < length s \<and> prefix p (drop j s)}"

text \<open>A step extends the log when it only adds events at its end.\<close>

definition extends_log :: "(state \<Rightarrow> error + state) \<Rightarrow> bool" where
  "extends_log f = (\<forall>st st'. f st = Inr st' \<longrightarrow> prefix (log st) (log st'))"

section \<open>A sample project\<close>

text \<open>
  A small project on which the script is run below. The bundler writes three documents
  and the four compiled files; the linter and the installer change nothing. The codec
  knows three texts; the serialiser lists the keys of an object; an archive lists the
  names packed into it. The event loop finishes archives at the first suspension.
\<close>

definition bundler0 :: "fs \<Rightarrow> error + fs" where
  "bundler0 t =
     bindE (writeFileSync [''build'', ''index.html''] (''<html>'' @ link_app_css @ ''</html>'') t) (\<lambda>t.
     bindE (writeFileSync [''build'', ''bridge.html''] ''<html>bridge</html>'' t) (\<lambda>t.
     bindE (writeFileSync [''build'', ''benchmark.html''] ''<html>bench</html>'' t) (\<lambda>t.
     bindE (writeFileSync [''build'', ''app.css''] ''a{}'' t) (\<lambda>t.
     bindE (writeFileSync [''build'', ''viper_lib.css''] ''b{}'' t) (\<lambda>t.
     bindE (writeFileSync [''build'', ''app.js''] ''f()'' t) (\<lambda>t.
           writeFileSync [''build'', ''viper_lib.js''] ''g()'' t))))))"

definition env0 :: env where
  "env0 =
     \<lparr>exec = (\<lambda>cmd t. if cmd = ''npm run build'' then bundler0 t else Inr t),
      parse = (\<lambda>text.
        if text = ''E'' then Some (JObject [(''hello'', JString ''Hello'')])
        else if text = ''M'' then
          Some (JObject [(''name'', JString ''viper''), (''version'', JString ''0.0.0'')])
        else if text = ''P'' then Some (JObject [(''version'', JString ''1.2.3'')])
        else None),
      stringify = (\<lambda>v. case v of JObject ps \<Rightarrow> concat (map (\<lambda>e. fst e @ '','') ps) | _ \<Rightarrow> []),
      pack = (\<lambda>opts names t. concat names),
      lag = 0\<rparr>"

definition inputs0 :: fs where
  "inputs0 =
     [([''src''], Dir), ([''src'', ''webrepl_content.js''], File ''w''),
      ([''assets''], Dir), ([''assets'', ''logo.png''], File ''new''),
      ([''src'', ''lang''], Dir), ([''src'', ''lang'', ''en.json''], File ''E''),
      ([''src'', ''manifest.json''], File ''M''), ([''package.json''], File ''P''),
      ([''src'', ''tools_vfs''], Dir), ([''src'', ''tools_vfs'', ''a.py''], File ''a''),
      ([''src'', ''vm_vfs''], Dir), ([''src'', ''vm_vfs'', ''b.py''], File ''b''),
      ([''node_modules''], Dir),
      ([''node_modules'', ''@micropython''], Dir),
      ([''node_modules'', ''@micropython'', ''micropython-webassembly-pyscript''], Dir),
      ([''node_modules'', ''@micropython'', ''micropython-webassembly-pyscript'',
        ''micropython.wasm''], File ''1''),
      ([''node_modules'', ''@micropython'', ''micropython-webassembly-pyscript'',
        ''micropython.mjs''], File ''2''),
      ([''node_modules'', ''@pybricks''], Dir),
      ([''node_modules'', ''@pybricks'', ''mpy-cross-v6''], Dir),
      ([''node_modules'', ''@pybricks'', ''mpy-cross-v6'', ''build''], Dir),
      ([''node_modules'', ''@pybricks'', ''mpy-cross-v6'', ''build'', ''mpy-cross-v6.wasm''],
       File ''3''),
      ([''node_modules'', ''@astral-sh''], Dir),
      ([''node_modules'', ''@astral-sh'', ''ruff-wasm-web''], Dir),
      ([''node_modules'', ''@astral-sh'', ''ruff-wasm-web'', ''ruff_wasm_bg.wasm''], File ''4'')]"

text \<open>
  The project with a build directory left by an earlier run, in which the destination of
  the asset \<^verbatim>\<open>logo.png\<close> exists already.
\<close>

definition t0 :: fs where
  "t0 =
     [([''build''], Dir), ([''build'', ''assets''], Dir),
      ([''build'', ''assets'', ''logo.png''], File ''old'')] @ inputs0"

text \<open>The states of the run on \<open>t0\<close> after the stages of the script.\<close>

definition built0 :: fs where
  "built0 =
     [([''build'', ''manifest.json''], File (''name,version,'' @ [CHR 0x0A])),
      ([''build'', ''assets'', ''logo.png''], File ''new''),
      ([''build'', ''webrepl_content.js''], File ''w''),
      ([''build'', ''assets''], Dir),
      ([''build''], Dir)] @ inputs0"

definition s_gen0 :: state where
  "s_gen0 =
     \<lparr>files = ([''build'', ''manifest.json''], File (''name,version,'' @ [CHR 0x0A]))
               # ([''build'', ''translations.json''], File (''en,'' @ [CHR 0x0A]))
               # tl built0,
      pending =
        [(\<lparr>gzip = True, tar_file = [''build'', ''assets'', ''tools_vfs.tar.gz''],
           cwd = [''src'', ''tools_vfs''], portable = True, noMtime = True, sync = False\<rparr>,
          [''a.py'']),
         (\<lparr>gzip = True, tar_file = [''build'', ''assets'', ''vm_vfs.tar.gz''],
           cwd = [''src'', ''vm_vfs''], portable = True, noMtime = True, sync = False\<rparr>,
          [''b.py''])],
      log = [], awaits = 0\<rparr>"

definition log0 :: "event list" where
  "log0 =
     [Spawned ''npx eslint'',
      ArchiveWritten [''build'', ''assets'', ''tools_vfs.tar.gz''],
      ArchiveWritten [''build'', ''assets'', ''vm_vfs.tar.gz''],
      Spawned ''npm run build'']"

definition s_built0 :: state where
  "s_built0 =
     \<lparr>files =
        [([''build'', ''viper_lib.js''], File ''g()''),
         ([''build'', ''app.js''], File ''f()''),
         ([''build'', ''viper_lib.css''], File ''b{}''),
         ([''build'', ''app.css''], File ''a{}''),
         ([''build'', ''benchmark.html''], File ''<html>bench</html>''),
         ([''build'', ''bridge.html''], File ''<html>bridge</html>''),
         ([''build'', ''index.html''], File (''<html>'' @ link_app_css @ ''</html>'')),
         ([''build'', ''assets'', ''vm_vfs.tar.gz''], File ''b.py''),
         ([''build'', ''assets'', ''tools_vfs.tar.gz''], File ''a.py''),
         ([''build'', ''manifest.json''], File (''name,version,'' @ [CHR 0x0A])),
         ([''build'', ''translations.json''], File (''en,'' @ [CHR 0x0A]))] @ tl built0,
      pending = [], log = log0, awaits = 2\<rparr>"

definition s_comb0 :: state where
  "s_comb0 =
     \<lparr>files =
        [([''build'', ''benchmark.html''], File ''<html>bench</html>''),
         ([''build'', ''bridge.html''], File ''<html>bridge</html>''),
         ([''build'', ''index.html''], File (''<html>'' @ style_block ''a{}'' @ ''</html>'')),
         ([''build'', ''viper_lib.js''], File ''g()''),
         ([''build'', ''app.js''], File ''f()''),
         ([''build'', ''viper_lib.css''], File ''b{}''),
         ([''build'', ''app.css''], File ''a{}''),
         ([''build'', ''assets'', ''vm_vfs.tar.gz''], File ''b.py''),
         ([''build'', ''assets'', ''tools_vfs.tar.gz''], File ''a.py''),
         ([''build'', ''manifest.json''], File (''name,version,'' @ [CHR 0x0A])),
         ([''build'', ''translations.json''], File (''en,'' @ [CHR 0x0A]))] @ tl built0,
      pending = [], log = log0, awaits = 2\<rparr>"

definition s_clean0 :: state where
  "s_clean0 =
     \<lparr>files =
        [([''build'', ''benchmark.html''], File ''<html>bench</html>''),
         ([''build'', ''bridge.html''], File ''<html>bridge</html>''),
         ([''build'', ''index.html''], File (''<html>'' @ style_block ''a{}'' @ ''</html>'')),
         ([''build'', ''assets'', ''vm_vfs.tar.gz''], File ''b.py''),
         ([''build'', ''assets'', ''tools_vfs.tar.gz''], File ''a.py'')] @ built0,
      pending = [], log = log0, awaits = 2\<rparr>"

definition s_final0 :: state where
  "s_final0 =
     \<lparr>files =
        [([''build'', ''assets'', ''ruff_wasm_bg.wasm''], File ''4''),
         ([''build'', ''assets'', ''mpy-cross-v6.wasm''], File ''3''),
         ([''build'', ''micropython.mjs''], File ''2''),
         ([''build'', ''assets'', ''micropython.wasm''], File ''1'')] @ files s_clean0,
      pending = [], log = log0, awaits = 2\<rparr>"

text \<open>
  A project whose static asset tree is missing, again with an older build directory.
\<close>

definition t1 :: fs where
  "t1 =
     [([''src''], Dir), ([''src'', ''webrepl_content.js''], File ''w''),
      ([''build''], Dir), ([''build'', ''index.html''], File ''stale''),
      ([''build'', ''assets''], Dir), ([''build'', ''assets'', ''logo.png''], File ''old'')]"

definition s1 :: state where
  "s1 =
     \<lparr>files =
        [([''build'', ''webrepl_content.js''], File ''w''),
         ([''build'', ''assets''], Dir), ([''build''], Dir),
         ([''src''], Dir), ([''src'', ''webrepl_content.js''], File ''w'')],
      pending = [], log = [], awaits = 0\<rparr>"

definition s1_reset :: state where
  "s1_reset =
     \<lparr>files =
        [([''build'', ''assets''], Dir), ([''build''], Dir),
         ([''src''], Dir), ([''src'', ''webrepl_content.js''], File ''w'')],
      pending = [], log = [], awaits = 0\<rparr>"



text \<open>
  Build directories for the Document Inliner: one whose script contains the pattern
  \<^verbatim>\<open>$&\<close>, one with a single placeholder, one without \<^verbatim>\<open>app.js\<close>, and one whose
  document repeats a placeholder.
\<close>

definition doc2 :: string where
  "doc2 = link_app_css @ link_viper_lib_css @ script_app_js @ script_viper_lib_js"

definition t2 :: fs where
  "t2 =
     [([''build''], Dir), ([''build'', ''index.html''], File doc2),
      ([''build'', ''app.css''], File ''a{}''), ([''build'', ''viper_lib.css''], File ''b{}''),
      ([''build'', ''app.js''], File ''f($&)''), ([''build'', ''viper_lib.js''], File ''g()'')]"

definition out2 :: string where
  "out2 =
     style_block ''a{}'' @ style_block ''b{}''
     @ ''<script>'' @ [CHR 0x0A] @ ''f('' @ script_app_js @ '')'' @ [CHR 0x0A] @ ''</script>''
     @ script_block ''g()''"

definition doc7 :: string where
  "doc7 = ''<html>'' @ link_app_css @ ''</html>''"

definition t7 :: fs where
  "t7 =
     [([''build''], Dir), ([''build'', ''index.html''], File doc7),
      ([''build'', ''app.css''], File ''a{}''), ([''build'', ''viper_lib.css''], File ''b{}''),
      ([''build'', ''app.js''], File ''f()''), ([''build'', ''viper_lib.js''], File ''g()'')]"

definition out7 :: string where
  "out7 = ''<html>'' @ style_block ''a{}'' @ ''</html>''"

definition t9 :: fs where
  "t9 =
     [([''build''], Dir), ([''build'', ''index.html''], File ''<html></html>''),
      ([''build'', ''app.css''], File ''a{}''), ([''build'', ''viper_lib.css''], File ''b{}''),
      ([''build'', ''viper_lib.js''], File ''g()'')]"

definition doc10 :: string where
  "doc10 = link_app_css @ ''+'' @ link_app_css"

definition t10 :: fs where
  "t10 =
     [([''build''], Dir), ([''build'', ''index.html''], File doc10),
      ([''build'', ''app.css''], File ''a{}''), ([''build'', ''viper_lib.css''], File ''b{}''),
      ([''build'', ''app.js''], File ''f()''), ([''build'', ''viper_lib.js''], File ''g()'')]"

definition out10 :: string where
  "out10 = style_block ''a{}'' @ ''+'' @ link_app_css"

text \<open>A translations directory with a file named \<^verbatim>\<open>__proto__.json\<close>.\<close>

definition t5 :: fs where
  "t5 =
     [([''src''], Dir), ([''src'', ''lang''], Dir),
      ([''src'', ''lang'', ''__proto__.json''], File ''E''),
      ([''src'', ''lang'', ''en.json''], File ''E''),
      ([''build''], Dir)]"

section \<open>Properties\<close>

subsection \<open>Searching and replacing\<close>

lemma indexOf_Some:
  "indexOf s p = Some i \<Longrightarrow>
     prefix p (drop i s) \<and> i \<le> length s \<and> (\<forall>j<i. \<not> prefix p (drop j s))"
proof (induction s arbitrary: i)
  case Nil
  then show ?case by (simp split: if_splits)
next
  case (Cons c cs)
  show ?case
  proof (cases "prefix p (c # cs)")
    case True
    with Cons.prems show ?thesis by simp
  next
    case False
    with Cons.prems obtain k where k: "indexOf cs p = Some k" "i = Suc k" by auto
    from Cons.IH [OF k(1)]
    have ih: "prefix p (drop k cs)" "k \<le> length cs" "\<forall>j<k. \<not> prefix p (drop j cs)"
      by auto
    have "\<not> prefix p (drop j (c # cs))" if "j < i" for j
    proof (cases j)
      case 0
      with False show ?thesis by simp
    next
      case (Suc m)
      with that k ih show ?thesis by simp
    qed
    with ih k show ?thesis by simp
  qed
qed

lemma indexOf_None: "indexOf s p = None \<Longrightarrow> \<not> prefix p (drop j s)"
proof (induction s arbitrary: j)
  case Nil
  then show ?case by (simp split: if_splits)
next
  case (Cons c cs)
  then show ?case by (cases j) (auto split: if_splits)
qed

lemma sublist_iff_prefix_drop: "sublist p s \<longleftrightarrow> (\<exists>j. prefix p (drop j s))"
proof
  assume "sublist p s"
  then obtain a b where "s = a @ p @ b" by (auto simp: sublist_def)
  then have "prefix p (drop (length a) s)" by simp
  then show "\<exists>j. prefix p (drop j s)" ..
next
  assume "\<exists>j. prefix p (drop j s)"
  then obtain j b where "drop j s = p @ b" by (auto simp: prefix_def)
  then have "s = take j s @ p @ b" by (metis append_take_drop_id)
  then show "sublist p s" unfolding sublist_def by blast
qed

lemma indexOf_None_iff: "indexOf s p = None \<longleftrightarrow> \<not> sublist p s"
proof
  assume "indexOf s p = None"
  then show "\<not> sublist p s" by (simp add: sublist_iff_prefix_drop indexOf_None)
next
  assume ns: "\<not> sublist p s"
  show "indexOf s p = None"
  proof (cases "indexOf s p")
    case None
    then show ?thesis .
  next
    case (Some i)
    from indexOf_Some [OF this] ns show ?thesis by (auto simp: sublist_iff_prefix_drop)
  qed
qed

lemma js_replace_absent: "\<not> sublist p s \<Longrightarrow> js_replace s p r = s"
  by (simp add: js_replace_def indexOf_None_iff [symmetric])

text \<open>A replacement text without a dollar sign is inserted as it is.\<close>

lemma getSubstitution_plain: "CHR ''$'' \<notin> set r \<Longrightarrow> getSubstitution m s i r = r"
  by (induction m s i r rule: getSubstitution.induct) auto

subsection \<open>The file system\<close>

lemma map_of_filter_fst:
  "map_of (filter (\<lambda>e. P (fst e)) t) q = (if P q then map_of t q else None)"
  by (induction t) auto

lemma lookup_Nil: "lookup t [] = Some Dir"
  by (simp add: lookup_def)

lemma lookup_store:
  "lookup (store p n t) q = (if q = [] then Some Dir else if q = p then Some n else lookup t q)"
  by (simp add: lookup_def store_def map_of_filter_fst [where P = "\<lambda>q. q \<noteq> p"])

lemma lookup_filter:
  "lookup (filter (\<lambda>e. P (fst e)) t) q =
     (if q = [] then Some Dir else if P q then lookup t q else None)"
  by (simp add: lookup_def map_of_filter_fst)

lemma lookup_rm:
  "lookup (filter (\<lambda>e. \<not> prefix p (fst e)) t) q =
     (if q = [] then Some Dir else if prefix p q then None else lookup t q)"
  using lookup_filter [where P = "\<lambda>q. \<not> prefix p q"] by simp

lemma readFile_Inr_iff: "readFile p t = Inr c \<longleftrightarrow> lookup t p = Some (File c)"
  by (auto simp: readFile_def split: option.splits node.splits)

lemma writeFileSync_existing:
  "lookup t p = Some (File x) \<Longrightarrow> writeFileSync p c t = Inr (store p (File c) t)"
  by (simp add: writeFileSync_def)

lemma unlinkSync_Inr:
  "unlinkSync p t = Inr t' \<Longrightarrow> lookup t' q = (if q = p then None else lookup t q)"
  by (auto simp: unlinkSync_def lookup_filter [where P = "\<lambda>q. q \<noteq> p"] lookup_Nil
      split: option.splits node.splits)

subsection \<open>The Document Inliner\<close>

lemma combine_Inr:
  assumes "readFile filePath t = Inr content"
    and "readFile [''build'', ''app.css''] t = Inr c1"
    and "readFile [''build'', ''viper_lib.css''] t = Inr c2"
    and "readFile [''build'', ''app.js''] t = Inr j1"
    and "readFile [''build'', ''viper_lib.js''] t = Inr j2"
  shows "combine filePath t =
    Inr (store filePath
      (File (js_replace (js_replace (js_replace (js_replace content
          link_app_css (style_block c1))
          link_viper_lib_css (style_block c2))
          script_app_js (script_block j1))
          script_viper_lib_js (script_block j2))) t)"
proof -
  from assms(1) have "lookup t filePath = Some (File content)"
    by (simp add: readFile_Inr_iff)
  then show ?thesis
    using assms by (simp add: combine_def bindE_def writeFileSync_existing)
qed

lemma combine_Inr_reads:
  assumes "combine filePath t = Inr t'"
  shows "\<exists>content c1 c2 j1 j2. readFile filePath t = Inr content
    \<and> readFile [''build'', ''app.css''] t = Inr c1
    \<and> readFile [''build'', ''viper_lib.css''] t = Inr c2
    \<and> readFile [''build'', ''app.js''] t = Inr j1
    \<and> readFile [''build'', ''viper_lib.js''] t = Inr j2"
  using assms by (auto simp: combine_def bindE_def split: sum.splits)

subsection \<open>The placeholders do not overlap\<close>

lemma placeholders_nonempty: "p \<in> set placeholders \<Longrightarrow> p \<noteq> []"
  by (auto simp: placeholders_def link_app_css_def link_viper_lib_css_def script_app_js_def
      script_viper_lib_js_def)

lemma placeholders_not_prefix:
  "\<forall>p\<in>set placeholders. \<forall>q\<in>set placeholders. p \<noteq> q \<longrightarrow> \<not> prefix p q"
  by code_simp

lemma placeholders_no_overlap:
  "\<forall>p\<in>set placeholders. \<forall>q\<in>set placeholders. \<forall>d\<in>set [1..<length p].
     \<not> prefix q (drop d p) \<and> \<not> prefix (drop d p) q"
  by code_simp

lemma no_overlap_at:
  assumes "p \<in> set placeholders" and "q \<in> set placeholders" and "0 < d" and "d < length p"
  shows "\<not> prefix q (drop d p) \<and> \<not> prefix (drop d p) q"
proof -
  from assms(3,4) have "d \<in> set [1..<length p]" by simp
  with placeholders_no_overlap [rule_format, of p q d] assms(1,2) show ?thesis by simp
qed

lemma not_prefix_at:
  assumes "p \<in> set placeholders" and "q \<in> set placeholders" and "p \<noteq> q"
  shows "\<not> prefix p q"
  using placeholders_not_prefix [rule_format, of p q] assms by simp

lemma overlap_cases:
  assumes "prefix p (drop j s)" and "prefix q (drop k s)" and "j < k" and "k < j + length p"
  shows "prefix q (drop (k - j) p) \<or> prefix (drop (k - j) p) q"
proof -
  from assms(1) obtain b where b: "drop j s = p @ b" by (auto simp: prefix_def)
  have "drop k s = drop (k - j) (drop j s)" using assms(3) by simp
  also have "\<dots> = drop (k - j) p @ b" using assms(3,4) by (simp add: b)
  finally have "prefix q (drop (k - j) p @ b)" using assms(2) by simp
  moreover have "prefix (drop (k - j) p) (drop (k - j) p @ b)" by simp
  ultimately show ?thesis by (rule prefix_same_cases)
qed

text \<open>Two occurrences of placeholders in a text are the same occurrence or lie apart.\<close>

lemma placeholders_apart:
  assumes p: "p \<in> set placeholders" and q: "q \<in> set placeholders"
    and pj: "prefix p (drop j s)" and qk: "prefix q (drop k s)"
    and ne: "j \<noteq> k \<or> p \<noteq> q"
  shows "j + length p \<le> k \<or> k + length q \<le> j"
proof (rule ccontr)
  assume "\<not> ?thesis"
  then have lt: "k < j + length p" "j < k + length q" by auto
  consider "j = k" | "j < k" | "k < j" by linarith
  then show False
  proof cases
    case 1
    from pj qk 1 have "prefix p q \<or> prefix q p"
      by (simp add: prefix_same_cases)
    moreover from 1 ne have "p \<noteq> q" "q \<noteq> p" by simp_all
    ultimately show False using not_prefix_at [OF p q] not_prefix_at [OF q p] by simp
  next
    case 2
    from overlap_cases [OF pj qk 2 lt(1)]
    have "prefix q (drop (k - j) p) \<or> prefix (drop (k - j) p) q" .
    moreover from 2 lt have "0 < k - j" "k - j < length p" by simp_all
    ultimately show False using no_overlap_at [OF p q] by simp
  next
    case 3
    from overlap_cases [OF qk pj 3 lt(2)]
    have "prefix p (drop (j - k) q) \<or> prefix (drop (j - k) q) p" .
    moreover from 3 lt have "0 < j - k" "j - k < length q" by simp_all
    ultimately show False using no_overlap_at [OF q p] by simp
  qed
qed

subsection \<open>Counting occurrences\<close>

lemma finite_positions: "finite (positions p s)"
  by (simp add: positions_def)

lemma positions_Cons:
  "positions p (c # cs) = (if prefix p (c # cs) then {0} else {}) \<union> Suc ` positions p cs"
proof (rule set_eqI)
  fix j
  show "j \<in> positions p (c # cs) \<longleftrightarrow>
      j \<in> (if prefix p (c # cs) then {0} else {}) \<union> Suc ` positions p cs"
    by (cases j) (auto simp: positions_def)
qed

lemma occurrences_card: "p \<noteq> [] \<Longrightarrow> occurrences p s = card (positions p s)"
proof (induction s)
  case Nil
  then show ?case by (simp add: positions_def)
next
  case (Cons c cs)
  have "card ((if prefix p (c # cs) then {0} else {}) \<union> Suc ` positions p cs)
      = card (if prefix p (c # cs) then {0::nat} else {}) + card (Suc ` positions p cs)"
    by (rule card_Un_disjoint) (auto simp: finite_positions)
  also have "card (Suc ` positions p cs) = card (positions p cs)"
    by (simp add: card_image)
  finally show ?case using Cons by (simp add: positions_Cons)
qed

lemma in_positions: "p \<noteq> [] \<Longrightarrow> j \<in> positions p s \<longleftrightarrow> prefix p (drop j s)"
proof -
  assume ne: "p \<noteq> []"
  have "j < length s" if "prefix p (drop j s)"
  proof (rule ccontr)
    assume "\<not> j < length s"
    then have "drop j s = []" by simp
    with that ne show False by simp
  qed
  then show ?thesis by (auto simp: positions_def)
qed

text \<open>
  Replacing the first occurrence of \<open>q\<close> by any text moves the other occurrences of
  placeholders and destroys none of them.
\<close>

lemma positions_survive:
  assumes p: "p \<in> set placeholders" and q: "q \<in> set placeholders"
    and k: "indexOf s q = Some k"
    and A: "A \<subseteq> positions p s" and kA: "p = q \<longrightarrow> k \<notin> A"
  shows "card A \<le> card (positions p (take k s @ x @ drop (k + length q) s))"
proof -
  let ?out = "take k s @ x @ drop (k + length q) s"
  define f where "f j = (if j < k then j else j - length q + length x)" for j
  note pne = placeholders_nonempty [OF p]
  from indexOf_Some [OF k] have qk: "prefix q (drop k s)" and kle: "k \<le> length s" by simp_all
  have apart: "j + length p \<le> k \<or> k + length q \<le> j" if "j \<in> A" for j
  proof -
    from that A have pj: "prefix p (drop j s)" by (auto simp: in_positions [OF pne])
    from that kA have "j \<noteq> k \<or> p \<noteq> q" by auto
    from placeholders_apart [OF p q pj qk this] show ?thesis .
  qed
  have img: "f j \<in> positions p ?out" if "j \<in> A" for j
  proof -
    from that A have pj: "prefix p (drop j s)" by (auto simp: in_positions [OF pne])
    then obtain b where b: "drop j s = p @ b" by (auto simp: prefix_def)
    from apart [OF that] show ?thesis
    proof
      assume before: "j + length p \<le> k"
      with pne have jk: "j < k" by (cases p) simp_all
      have "drop j (take k s) = take (k - j) (drop j s)" by (simp add: drop_take)
      also have "\<dots> = p @ take (k - j - length p) b" using before by (simp add: b)
      finally have "drop j ?out = p @ take (k - j - length p) b @ x @ drop (k + length q) s"
        using jk kle by simp
      then have "prefix p (drop j ?out)" by simp
      with jk show ?thesis by (simp add: f_def in_positions [OF pne])
    next
      assume after: "k + length q \<le> j"
      then have "drop (j - length q + length x) ?out = drop j s"
        using kle by simp
      with pj after show ?thesis by (simp add: f_def in_positions [OF pne])
    qed
  qed
  have "inj_on f A"
  proof (rule inj_onI)
    fix i j
    assume i: "i \<in> A" and j: "j \<in> A" and eq: "f i = f j"
    from pne have lp: "0 < length p" by simp
    from apart [OF i] lp have ci: "i < k \<or> k + length q \<le> i" by linarith
    from apart [OF j] lp have cj: "j < k \<or> k + length q \<le> j" by linarith
    from ci cj eq show "i = j" by (auto simp: f_def split: if_splits)
  qed
  then have "card A = card (f ` A)" by (simp add: card_image)
  also have "\<dots> \<le> card (positions p ?out)"
    by (rule card_mono) (auto simp: finite_positions img)
  finally show ?thesis .
qed

lemma replace_other_placeholder:
  assumes "p \<in> set placeholders" and "q \<in> set placeholders" and "p \<noteq> q"
  shows "occurrences p s \<le> occurrences p (js_replace s q r)"
proof (cases "indexOf s q")
  case None
  then show ?thesis by (simp add: js_replace_def)
next
  case (Some k)
  from positions_survive [OF assms(1,2) Some, of "positions p s"] assms(3)
  show ?thesis
    by (simp add: js_replace_def Some occurrences_card [OF placeholders_nonempty [OF assms(1)]])
qed

lemma replace_same_placeholder:
  assumes "p \<in> set placeholders"
  shows "occurrences p s - 1 \<le> occurrences p (js_replace s p r)"
proof (cases "indexOf s p")
  case None
  then show ?thesis by (simp add: js_replace_def)
next
  case (Some k)
  have "card (positions p s) - 1 \<le> card (positions p s - {k})"
    by (simp add: card_Diff_singleton_if finite_positions)
  also from positions_survive [OF assms assms Some, of "positions p s - {k}"]
  have "\<dots> \<le> card (positions p (js_replace s p r))"
    by (simp add: js_replace_def Some)
  finally show ?thesis
    by (simp add: occurrences_card [OF placeholders_nonempty [OF assms]])
qed

lemma replace_step:
  assumes "p \<in> set placeholders" and "q \<in> set placeholders"
  shows "occurrences p s - (if p = q then 1 else 0) \<le> occurrences p (js_replace s q r)"
proof (cases "p = q")
  case True
  with replace_same_placeholder [OF assms(1), of s r] show ?thesis by simp
next
  case False
  with replace_other_placeholder [OF assms False, of s r] show ?thesis by simp
qed

subsection \<open>Objects\<close>







subsection \<open>The driver\<close>

lemma run_steps_append:
  "run_steps (a @ b) st =
     (case run_steps a st of (Some e, s) \<Rightarrow> (Some e, s) | (None, s) \<Rightarrow> run_steps b s)"
  by (induction a arbitrary: st) (auto split: sum.splits)

lemma lift_Inr_iff:
  "lift f st = Inr st' \<longleftrightarrow> (\<exists>t. f (files st) = Inr t \<and> st' = st\<lparr>files := t\<rparr>)"
  by (auto simp: lift_def bindE_def split: sum.splits)

lemma lift_Inl_iff: "lift f st = Inl e \<longleftrightarrow> f (files st) = Inl e"
  by (auto simp: lift_def bindE_def split: sum.splits)

text \<open>The Reset stage cannot fail, and it leaves an empty \<^verbatim>\<open>build/assets\<close>.\<close>

lemma reset_steps_run:
  "run_steps reset_steps st =
     (None, st\<lparr>files := store [''build'', ''assets''] Dir (store [''build''] Dir
        (filter (\<lambda>e. \<not> prefix [''build''] (fst e)) (files st)))\<rparr>)"
  by (simp add: reset_steps_def lift_def bindE_def rmSync_def mkdirSync_def lookup_store
      lookup_rm)

lemma lookup_after_reset:
  "lookup (store [''build'', ''assets''] Dir (store [''build''] Dir
        (filter (\<lambda>e. \<not> prefix [''build''] (fst e)) t))) q =
     (if q = [] \<or> q = [''build''] \<or> q = [''build'', ''assets''] then Some Dir
      else if prefix [''build''] q then None else lookup t q)"
  by (simp add: lookup_store lookup_rm)

lemma staging_failure_state:
  assumes "run_steps (reset_steps @ staging_steps) (start t) = (Some e, st)"
  shows "log st = [] \<and>
    (\<exists>u. files st = store [''build'', ''assets''] Dir (store [''build''] Dir
            (filter (\<lambda>e. \<not> prefix [''build''] (fst e)) t))
       \<or> files st = store [''build'', ''webrepl_content.js''] (File u)
            (store [''build'', ''assets''] Dir (store [''build''] Dir
              (filter (\<lambda>e. \<not> prefix [''build''] (fst e)) t))))"
  using assms
  by (auto simp: run_steps_append reset_steps_run staging_steps_def stage_webrepl_def
      stage_assets_def lift_Inr_iff lift_Inl_iff start_def copyFileSync_def bindE_def
      writeFileSync_def
      split: sum.splits option.splits node.splits if_splits)

subsection \<open>The archives are started and not awaited\<close>

lemma lift_keeps:
  "lift f st = Inr st' \<Longrightarrow> log st' = log st \<and> pending st' = pending st \<and> awaits st' = awaits st"
  by (auto simp: lift_Inr_iff)

lemma genTar_Inr:
  assumes "genTar E src dst st = Inr st'"
  shows "log st' = log st \<and> files st' = files st \<and> awaits st' = awaits st
    \<and> map (\<lambda>j. tar_file (fst j)) (pending st') = map (\<lambda>j. tar_file (fst j)) (pending st) @ [dst]"
  using assms
  by (auto simp: genTar_def tar_c_def bindE_def split: sum.splits if_splits)

lemma generate_state:
  assumes "run_steps (generate_steps E) st = (None, st')"
  shows "log st' = log st
    \<and> map (\<lambda>j. tar_file (fst j)) (pending st') = map (\<lambda>j. tar_file (fst j)) (pending st)
        @ [[''build'', ''assets'', ''tools_vfs.tar.gz''], [''build'', ''assets'', ''vm_vfs.tar.gz'']]
    \<and> lookup (files st') [''node_modules''] = lookup (files st) [''node_modules'']"
proof -
  from assms obtain a b c where
    s: "lift (genTranslations E [''src'', ''lang''] [''build'', ''translations.json'']) st = Inr a"
       "lift (genManifest E [''src'', ''manifest.json''] [''build'', ''manifest.json'']) a = Inr b"
       "genTar E [''src'', ''tools_vfs''] [''build'', ''assets'', ''tools_vfs.tar.gz''] b = Inr c"
       "genTar E [''src'', ''vm_vfs''] [''build'', ''assets'', ''vm_vfs.tar.gz''] c = Inr st'"
    by (auto simp: generate_steps_def split: sum.splits)
  have w: "lookup u' q = lookup u q" if "writeFileSync p x u = Inr u'" "q \<noteq> p" for p x u u' q
    using that by (auto simp: writeFileSync_def lookup_store lookup_Nil split: option.splits node.splits)
  from s(1) obtain ta where ta: "genTranslations E [''src'', ''lang''] [''build'', ''translations.json''] (files st) = Inr ta"
      "a = st\<lparr>files := ta\<rparr>"
    by (auto simp: lift_Inr_iff)
  from ta(1) have la: "lookup ta [''node_modules''] = lookup (files st) [''node_modules'']"
    by (auto simp: genTranslations_def jsonfile_writeFileSync_def bindE_def w split: sum.splits)
  from s(2) obtain tb where tb: "genManifest E [''src'', ''manifest.json''] [''build'', ''manifest.json''] (files a) = Inr tb"
      "b = a\<lparr>files := tb\<rparr>"
    by (auto simp: lift_Inr_iff)
  from tb(1) have lb: "lookup tb [''node_modules''] = lookup (files a) [''node_modules'']"
    by (auto simp: genManifest_def jsonfile_writeFileSync_def bindE_def w split: sum.splits)
  from genTar_Inr [OF s(3)] genTar_Inr [OF s(4)] ta(2) tb(2) la lb
  show ?thesis by simp
qed


lemma writeFileSync_other:
  "writeFileSync p x u = Inr u' \<Longrightarrow> q \<noteq> p \<Longrightarrow> lookup u' q = lookup u q"
  by (auto simp: writeFileSync_def lookup_store lookup_Nil split: option.splits node.splits)

lemma mkdir_from_other:
  "mkdir_from pre cs t = Inr t' \<Longrightarrow> \<not> prefix q (pre @ cs) \<Longrightarrow> lookup t' q = lookup t q"
proof (induction cs arbitrary: pre t)
  case Nil
  then show ?case by simp
next
  case (Cons c cs)
  from Cons.prems(2) have q: "q \<noteq> pre @ [c]" "\<not> prefix q ((pre @ [c]) @ cs)"
    by (auto simp: prefix_def)
  from Cons.prems(1) Cons.IH [OF _ q(2)] q(1) show ?case
    by (auto simp: lookup_store lookup_Nil split: option.splits node.splits if_splits)
qed

lemma cp_entry_other:
  "cp_entry opts dest e t = Inr t' \<Longrightarrow> \<not> prefix dest q \<Longrightarrow> lookup t' q = lookup t q"
  by (auto simp: cp_entry_def lookup_store lookup_Nil split: option.splits node.splits if_splits)

lemma cp_entries_other:
  "cp_entries opts dest es t = Inr t' \<Longrightarrow> \<not> prefix dest q \<Longrightarrow> lookup t' q = lookup t q"
proof (induction es arbitrary: t)
  case Nil
  then show ?case by simp
next
  case (Cons e es)
  from Cons.prems(1) obtain u where u: "cp_entry opts dest e t = Inr u" "cp_entries opts dest es u = Inr t'"
    by (auto simp: bindE_def split: sum.splits)
  from Cons.IH [OF u(2) Cons.prems(2)] cp_entry_other [OF u(1) Cons.prems(2)] show ?case by simp
qed

lemma cpSync_other:
  assumes "cpSync src dest opts t = Inr t'" and "\<not> prefix dest q" and "\<not> prefix q (butlast dest)"
  shows "lookup t' q = lookup t q"
proof -
  from assms(1) obtain u where u: "mkdirSync (butlast dest) t = Inr u"
      "cp_entries opts dest (subtree src t) u = Inr t'"
    by (auto simp: cpSync_def bindE_def split: option.splits node.splits if_splits sum.splits)
  from u(1) assms(3) have "lookup u q = lookup t q"
    by (simp add: mkdirSync_def mkdir_from_other)
  with cp_entries_other [OF u(2) assms(2)] show ?thesis by simp
qed

lemma staged_state:
  assumes "run_steps (reset_steps @ staging_steps) (start t) = (None, st)"
  shows "log st = [] \<and> pending st = []
    \<and> lookup (files st) [''node_modules''] = lookup t [''node_modules'']"
proof -
  let ?r = "store [''build'', ''assets''] Dir (store [''build''] Dir
        (filter (\<lambda>e. \<not> prefix [''build''] (fst e)) t))"
  from assms obtain a where
    a: "stage_webrepl ((start t)\<lparr>files := ?r\<rparr>) = Inr a" and b: "stage_assets a = Inr st"
    by (auto simp: run_steps_append reset_steps_run staging_steps_def start_def split: sum.splits)
  from a obtain ta where ta: "a = (start t)\<lparr>files := ta\<rparr>"
      "copyFileSync [''src'', ''webrepl_content.js''] [''build'', ''webrepl_content.js''] ?r = Inr ta"
    by (auto simp: stage_webrepl_def lift_Inr_iff start_def)
  from ta(2) have "lookup ta [''node_modules''] = lookup ?r [''node_modules'']"
    by (auto simp: copyFileSync_def bindE_def writeFileSync_other split: sum.splits)
  then have la: "lookup ta [''node_modules''] = lookup t [''node_modules'']"
    by (simp add: lookup_after_reset)
  from b obtain tb where tb: "st = a\<lparr>files := tb\<rparr>"
      "cpSync [''assets''] [''build'', ''assets'']
         \<lparr>recursive = True, errorOnExist = True, force = True\<rparr> (files a) = Inr tb"
    by (auto simp: stage_assets_def lift_Inr_iff)
  from cpSync_other [OF tb(2), of "[''node_modules'']"] have "lookup tb [''node_modules''] = lookup (files a) [''node_modules'']"
    by simp
  with la ta(1) tb(1) show ?thesis by (simp add: start_def)
qed

lemma prepared_state:
  assumes "run_steps (reset_steps @ staging_steps @ generate_steps E) (start t) = (None, st)"
  shows "log st = []
    \<and> map (\<lambda>j. tar_file (fst j)) (pending st)
        = [[''build'', ''assets'', ''tools_vfs.tar.gz''], [''build'', ''assets'', ''vm_vfs.tar.gz'']]
    \<and> lookup (files st) [''node_modules''] = lookup t [''node_modules'']"
proof -
  from assms obtain a where a: "run_steps (reset_steps @ staging_steps) (start t) = (None, a)"
      "run_steps (generate_steps E) a = (None, st)"
    using run_steps_append [of "reset_steps @ staging_steps" "generate_steps E" "start t"]
    by (auto split: prod.splits option.splits)
  from staged_state [OF a(1)] generate_state [OF a(2)] show ?thesis by simp
qed


lemma settle_jobs_log:
  "settle_jobs E js st = Inr st' \<Longrightarrow> prefix (log st) (log st')"
proof (induction js arbitrary: st)
  case Nil
  then show ?case by simp
next
  case (Cons j js)
  from Cons.prems obtain u where
    "settle_jobs E js (st\<lparr>files := u, log := log st @ [ArchiveWritten (tar_file (fst j))]\<rparr>) = Inr st'"
    by (auto simp: bindE_def split: sum.splits)
  from Cons.IH [OF this] show ?case by (auto elim: prefix_order.order_trans [rotated])
qed

lemma settle_log: "settle E st = Inr st' \<Longrightarrow> prefix (log st) (log st')"
  using settle_jobs_log [of E "pending st" "st\<lparr>pending := []\<rparr>" st'] by (simp add: settle_def)

lemma await_log: "await E st = Inr st' \<Longrightarrow> prefix (log st) (log st')"
  by (auto simp: await_def bindE_def dest: settle_log split: if_splits sum.splits)

lemma run_log: "run E cmd st = Inr st' \<Longrightarrow> prefix (log st @ [Spawned cmd]) (log st')"
  by (auto simp: run_def bindE_def dest: await_log split: sum.splits)

lemma extends_log_lift: "extends_log (lift f)"
  by (auto simp: extends_log_def lift_Inr_iff)

lemma extends_log_run: "extends_log (run E cmd)"
  unfolding extends_log_def
proof (intro allI impI)
  fix st st'
  assume "run E cmd st = Inr st'"
  from run_log [OF this] show "prefix (log st) (log st')"
    by (auto simp: prefix_def)
qed

lemma run_steps_extends:
  "\<forall>f\<in>set fs. extends_log f \<Longrightarrow> run_steps fs st = (r, st') \<Longrightarrow> prefix (log st) (log st')"
proof (induction fs arbitrary: st)
  case Nil
  then show ?case by simp
next
  case (Cons f fs)
  show ?case
  proof (cases "f st")
    case (Inl e)
    with Cons.prems show ?thesis by simp
  next
    case (Inr u)
    with Cons.prems have "prefix (log st) (log u)" by (simp add: extends_log_def)
    moreover from Cons.prems Inr Cons.IH [of u] have "prefix (log u) (log st')" by simp
    ultimately show ?thesis by (rule prefix_order.order_trans)
  qed
qed

lemma later_steps_extend:
  "\<forall>f\<in>set ([run E ''npm run build''] @ combine_steps @ cleanup_steps @ vendor_steps).
     extends_log f"
  by (simp add: combine_steps_def cleanup_steps_def vendor_steps_def extends_log_lift
      extends_log_run)

text \<open>
  In every run on a project that has its \<^verbatim>\<open>node_modules\<close>, whatever the external commands
  do and whenever the event loop finishes the archives: the first thing that happens is
  the start of the linter. No archive is written before it.
\<close>

lemma linter_is_first_event:
  assumes nm: "existsSync [''node_modules''] t"
  shows "log (snd (main E t)) = [] \<or> hd (log (snd (main E t))) = Spawned ''npx eslint''"
proof -
  let ?P = "reset_steps @ staging_steps @ generate_steps E"
  let ?R = "[run E ''npm run build''] @ combine_steps @ cleanup_steps @ vendor_steps"
  have "main_steps E = ?P @ (build_steps E @ combine_steps @ cleanup_steps @ vendor_steps)"
    by (simp add: main_steps_def)
  then have split: "run_steps (main_steps E) (start t) =
      (case run_steps ?P (start t) of
         (Some e, s) \<Rightarrow> (Some e, s)
       | (None, s) \<Rightarrow>
           run_steps (build_steps E @ combine_steps @ cleanup_steps @ vendor_steps) s)"
    by (simp only: run_steps_append)
  obtain r0 st0 where p: "run_steps ?P (start t) = (r0, st0)" by (cases "run_steps ?P (start t)")
  show ?thesis
  proof (cases r0)
    case (Some e)
    have keep: "\<forall>f\<in>set ?P. \<forall>s s'. f s = Inr s' \<longrightarrow> log s' = log s"
      by (auto simp: reset_steps_def staging_steps_def stage_webrepl_def stage_assets_def
          generate_steps_def lift_Inr_iff dest: genTar_Inr)
    have "log s' = log s" if "run_steps fs s = (r, s')" "\<forall>f\<in>set fs. \<forall>s s'. f s = Inr s' \<longrightarrow> log s' = log s"
      for fs s r s'
      using that by (induction fs arbitrary: s) (auto split: sum.splits)
    from this [OF p keep] have "log st0 = []" by (simp add: start_def)
    moreover from p Some have "main E t = (Some e, st0)"
      by (simp add: main_def split)
    ultimately show ?thesis by simp
  next
    case None
    with p have p': "run_steps ?P (start t) = (None, st0)" by simp
    from prepared_state [OF p'] nm have st0: "log st0 = []" "existsSync [''node_modules''] (files st0)"
      by (simp_all add: existsSync_def)
    show ?thesis
    proof (cases "run E ''npx eslint'' st0")
      case (Inl e)
      with p' st0 have "main E t = (Some e, st0)"
        by (simp add: main_def split build_steps_def)
      with st0 show ?thesis by simp
    next
      case (Inr s2)
      from run_log [OF Inr] st0 have s2: "prefix [Spawned ''npx eslint''] (log s2)" by simp
      obtain r3 s3 where rest: "run_steps ?R s2 = (r3, s3)" by (cases "run_steps ?R s2")
      from run_steps_extends [OF later_steps_extend rest] s2
      have s3: "prefix [Spawned ''npx eslint''] (log s3)"
        by (rule prefix_order.order_trans [rotated])
      from p' st0 Inr rest have full: "run_steps (main_steps E) (start t) = (r3, s3)"
        by (simp add: split build_steps_def)
      have "prefix [Spawned ''npx eslint''] (log (snd (main E t)))"
      proof (cases r3)
        case (Some e)
        with full s3 show ?thesis by (simp add: main_def)
      next
        case None
        show ?thesis
        proof (cases "settle E s3")
          case (Inl e)
          with full None s3 show ?thesis by (simp add: main_def)
        next
          case (Inr s4)
          from settle_log [OF Inr] s3 have "prefix [Spawned ''npx eslint''] (log s4)"
            by (rule prefix_order.order_trans [rotated])
          with full None Inr show ?thesis by (simp add: main_def)
        qed
      qed
      then show ?thesis by (auto simp: prefix_def)
    qed
  qed
qed

subsection \<open>The Aggregator\<close>

lemma children_distinct: "distinct (children t d)"
proof -
  have "inj_on last {p. p \<noteq> [] \<and> butlast p = d}"
  proof (rule inj_onI)
    fix p q :: path
    assume "p \<in> {p. p \<noteq> [] \<and> butlast p = d}" "q \<in> {p. p \<noteq> [] \<and> butlast p = d}"
      "last p = last q"
    then have "butlast p @ [last p] = butlast q @ [last q]" "p \<noteq> []" "q \<noteq> []" by simp_all
    then show "p = q" by simp
  qed
  then have "inj_on last (set (filter (\<lambda>p. p \<noteq> [] \<and> butlast p = d) (paths t)))"
    by (rule inj_on_subset) auto
  then show ?thesis
    by (simp add: children_def distinct_map paths_def)
qed

lemma glob_sync_distinct: "distinct (glob_sync src t)"
  by (simp add: glob_sync_def children_distinct)

lemma basename_json:
  assumes "glob_match f"
  shows "f = basename f ''.json'' @ ''.json''"
proof -
  from assms have suf: "suffix ''.json'' f" and ne: "''.json'' \<noteq> f"
    by (auto simp: glob_match_def)
  from suf obtain x where x: "f = x @ ''.json''" by (auto simp: suffix_def)
  then have "take (length f - length ''.json'') f = x" by simp
  with suf ne have "basename f ''.json'' = x" by (simp add: basename_def)
  with x show ?thesis by simp
qed

lemma basename_inj:
  "glob_match f \<Longrightarrow> glob_match g \<Longrightarrow> basename f ''.json'' = basename g ''.json'' \<Longrightarrow> f = g"
  using basename_json [of f] basename_json [of g] by simp

lemma basename_proto:
  "glob_match f \<Longrightarrow> basename f ''.json'' = ''__proto__'' \<longleftrightarrow> f = ''__proto__.json''"
  using basename_json [of f] by (auto simp: basename_def)

lemma insert_index_set: "set (insert_index ps k n v) = insert (k, v) (set ps)"
  by (induction ps) (auto split: option.splits)

lemma insert_index_length: "length (insert_index ps k n v) = Suc (length ps)"
  by (induction ps) (auto split: option.splits)

lemma insert_index_map_of:
  "k \<notin> fst ` set ps \<Longrightarrow> map_of (insert_index ps k n v) = (map_of ps)(k \<mapsto> v)"
proof (induction ps)
  case Nil
  then show ?case by simp
next
  case (Cons e ps)
  then show ?case
    by (cases e) (auto split: option.splits simp: fun_upd_twist)
qed

lemma map_of_replace:
  "map_of (map (\<lambda>e. if fst e = k then (k, v) else e) ps) x =
     (if x = k \<and> k \<in> fst ` set ps then Some v else map_of ps x)"
proof (induction ps)
  case Nil
  then show ?case by simp
next
  case (Cons e ps)
  obtain a b where e: "e = (a, b)" by (cases e)
  show ?case
  proof (cases "a = k")
    case True
    with e Cons show ?thesis by simp
  next
    case False
    with e Cons show ?thesis by (auto split: if_splits)
  qed
qed

lemma map_of_snoc:
  "k \<notin> fst ` set ps \<Longrightarrow> map_of (ps @ [(k, v)]) x = (if x = k then Some v else map_of ps x)"
  by (induction ps) auto

lemma set_own_map_of: "map_of (set_own ps k v) x = (if x = k then Some v else map_of ps x)"
proof (cases "k \<in> fst ` set ps")
  case True
  then show ?thesis by (simp add: set_own_def map_of_replace)
next
  case False
  then show ?thesis
    by (simp add: set_own_def insert_index_map_of map_of_snoc split: option.splits
        del: map_of_append)
qed

lemma set_own_keys: "fst ` set (set_own ps k v) = insert k (fst ` set ps)"
proof (cases "k \<in> fst ` set ps")
  case True
  have "fst ` set (map (\<lambda>e. if fst e = k then (k, v) else e) ps) = fst ` set ps"
    by (induction ps) auto
  with True show ?thesis by (auto simp: set_own_def)
next
  case False
  then show ?thesis
    by (auto simp: set_own_def insert_index_set split: option.splits)
qed

lemma set_own_length:
  "k \<notin> fst ` set ps \<Longrightarrow> length (set_own ps k v) = Suc (length ps)"
  by (simp add: set_own_def insert_index_length split: option.splits)


text \<open>
  Members with distinct keys, none of them an array index, become the properties of the
  object in the order of the text.
\<close>

lemma fold_set_own_plain:
  assumes "distinct (map fst ms)"
    and "\<forall>k\<in>fst ` set ms. array_index k = None \<and> k \<notin> fst ` set acc"
  shows "fold (\<lambda>e ps. set_own ps (fst e) (snd e)) ms acc = acc @ ms"
  using assms
proof (induction ms arbitrary: acc)
  case Nil
  then show ?case by simp
next
  case (Cons m ms)
  from Cons.prems have m: "array_index (fst m) = None" "fst m \<notin> fst ` set acc" by simp_all
  then have step: "set_own acc (fst m) (snd m) = acc @ [m]" by (simp add: set_own_def)
  from Cons.prems(1) have d: "distinct (map fst ms)" and fresh: "fst m \<notin> fst ` set ms"
    by simp_all
  have "\<forall>k\<in>fst ` set ms. array_index k = None \<and> k \<notin> fst ` set (acc @ [m])"
  proof
    fix k
    assume k: "k \<in> fst ` set ms"
    with fresh have "k \<noteq> fst m" by blast
    moreover from k Cons.prems(2) have "array_index k = None" "k \<notin> fst ` set acc" by auto
    ultimately show "array_index k = None \<and> k \<notin> fst ` set (acc @ [m])" by simp
  qed
  from Cons.IH [OF d this] step show ?case by simp
qed

lemma object_of_plain:
  "distinct (map fst ms) \<Longrightarrow> \<forall>k\<in>fst ` set ms. array_index k = None \<Longrightarrow> object_of ms = ms"
  using fold_set_own_plain [of ms "[]"] by (simp add: object_of_def)

lemma aggregate_result:
  assumes "distinct names"
    and "\<forall>f\<in>set names. glob_match f \<and> f \<noteq> ''__proto__.json''"
    and "\<forall>f\<in>set names. \<exists>text v. readFile (src @ [f]) t = Inr text \<and> JSON_parse E text = Inr v"
    and "\<forall>f\<in>set names. basename f ''.json'' \<notin> fst ` set acc"
  shows "\<exists>result. aggregate E src t names acc = Inr result
    \<and> length result = length acc + length names
    \<and> fst ` set result = fst ` set acc \<union> (\<lambda>f. basename f ''.json'') ` set names
    \<and> (\<forall>f\<in>set names. \<forall>text v. readFile (src @ [f]) t = Inr text \<and> JSON_parse E text = Inr v \<longrightarrow>
          map_of result (basename f ''.json'') = Some v)
    \<and> (\<forall>k. k \<notin> (\<lambda>f. basename f ''.json'') ` set names \<longrightarrow> map_of result k = map_of acc k)"
  using assms
proof (induction names arbitrary: acc)
  case Nil
  then show ?case by simp
next
  case (Cons f names)
  let ?k = "basename f ''.json''"
  from Cons.prems(3) obtain body v where rd: "readFile (src @ [f]) t = Inr body"
      "JSON_parse E body = Inr v" by auto
  from Cons.prems(2) have gf: "glob_match f" "f \<noteq> ''__proto__.json''" by auto
  then have kp: "?k \<noteq> ''__proto__''" by (simp add: basename_proto)
  from Cons.prems(4) have knew: "?k \<notin> fst ` set acc" by simp
  let ?acc = "assign acc ?k v"
  have acc': "?acc = set_own acc ?k v" using kp by (simp add: assign_def)
  have others: "basename g ''.json'' \<noteq> ?k" if "g \<in> set names" for g
  proof
    assume "basename g ''.json'' = ?k"
    with that Cons.prems(2) gf(1) have "g = f" by (auto dest: basename_inj)
    with that Cons.prems(1) show False by simp
  qed
  have p4: "\<forall>g\<in>set names. basename g ''.json'' \<notin> fst ` set ?acc"
    using Cons.prems(4) others by (auto simp: acc' set_own_keys)
  from Cons.prems have p1: "distinct names"
    and p2: "\<forall>f\<in>set names. glob_match f \<and> f \<noteq> ''__proto__.json''"
    and p3: "\<forall>f\<in>set names. \<exists>text v. readFile (src @ [f]) t = Inr text \<and> JSON_parse E text = Inr v"
    by simp_all
  from Cons.IH [OF p1 p2 p3 p4] obtain result where
    r: "aggregate E src t names ?acc = Inr result"
       "length result = length ?acc + length names"
       "fst ` set result = fst ` set ?acc \<union> (\<lambda>f. basename f ''.json'') ` set names"
       "\<forall>g\<in>set names. \<forall>text v. readFile (src @ [g]) t = Inr text \<and> JSON_parse E text = Inr v \<longrightarrow>
          map_of result (basename g ''.json'') = Some v"
       "\<forall>k. k \<notin> (\<lambda>f. basename f ''.json'') ` set names \<longrightarrow> map_of result k = map_of ?acc k"
    by blast
  have step: "aggregate E src t (f # names) acc = Inr result"
    using rd r(1) by (simp add: bindE_def)
  have len: "length result = length acc + length (f # names)"
    using r(2) knew by (simp add: acc' set_own_length)
  have keys: "fst ` set result = fst ` set acc \<union> (\<lambda>f. basename f ''.json'') ` set (f # names)"
    using r(3) by (auto simp: acc' set_own_keys)
  have "?k \<notin> (\<lambda>f. basename f ''.json'') ` set names"
  proof
    assume "?k \<in> (\<lambda>f. basename f ''.json'') ` set names"
    then obtain g where "g \<in> set names" "basename g ''.json'' = ?k" by auto
    with others show False by blast
  qed
  with r(5) have "map_of result ?k = Some v" by (simp add: acc' set_own_map_of)
  with rd r(4) have vals: "\<forall>g\<in>set (f # names). \<forall>text v. readFile (src @ [g]) t = Inr text \<and> JSON_parse E text = Inr v \<longrightarrow>
          map_of result (basename g ''.json'') = Some v"
    by auto
  have rest: "\<forall>k. k \<notin> (\<lambda>f. basename f ''.json'') ` set (f # names) \<longrightarrow>
      map_of result k = map_of acc k"
    using r(5) by (auto simp: acc' set_own_map_of)
  from step len keys vals rest show ?case by blast
qed

text \<open>
  The Aggregator on a directory without a document named \<^verbatim>\<open>__proto__.json\<close>, all of whose
  documents can be read and parsed: one key for each document, the base name, with the
  parsed content as its value. A directory without documents gives the empty mapping.
\<close>

lemma genTranslations_keys:
  assumes "''__proto__.json'' \<notin> set (glob_sync src t)"
    and "\<forall>f\<in>set (glob_sync src t).
           \<exists>text v. readFile (src @ [f]) t = Inr text \<and> JSON_parse E text = Inr v"
  shows "\<exists>result. genTranslations E src dst t = jsonfile_writeFileSync E dst (JObject result) t
    \<and> length result = length (glob_sync src t)
    \<and> distinct (map fst result)
    \<and> fst ` set result = (\<lambda>f. basename f ''.json'') ` set (glob_sync src t)
    \<and> (\<forall>f\<in>set (glob_sync src t). \<forall>text v. readFile (src @ [f]) t = Inr text \<and> JSON_parse E text = Inr v \<longrightarrow>
          map_of result (basename f ''.json'') = Some v)"
proof -
  let ?names = "glob_sync src t"
  have gm: "\<forall>f\<in>set ?names. glob_match f \<and> f \<noteq> ''__proto__.json''"
    using assms(1) by (auto simp: glob_sync_def)
  from aggregate_result [OF glob_sync_distinct gm assms(2), of "[]"] obtain result where
    r: "aggregate E src t ?names [] = Inr result"
       "length result = length ?names"
       "fst ` set result = (\<lambda>f. basename f ''.json'') ` set ?names"
       "\<forall>f\<in>set ?names. \<forall>text v. readFile (src @ [f]) t = Inr text \<and> JSON_parse E text = Inr v \<longrightarrow>
          map_of result (basename f ''.json'') = Some v"
    by auto
  have "inj_on (\<lambda>f. basename f ''.json'') (set ?names)"
    using gm by (auto intro!: inj_onI dest: basename_inj)
  then have "card ((\<lambda>f. basename f ''.json'') ` set ?names) = length ?names"
    by (simp add: card_image distinct_card glob_sync_distinct)
  with r(2,3) have "card (set (map fst result)) = length (map fst result)" by simp
  then have "distinct (map fst result)" by (rule card_distinct)
  with r show ?thesis by (auto simp: genTranslations_def bindE_def)
qed

lemma genTranslations_empty:
  "glob_sync src t = [] \<Longrightarrow>
     genTranslations E src dst t = jsonfile_writeFileSync E dst (JObject []) t"
  by (simp add: genTranslations_def bindE_def)

subsection \<open>The run on the sample project\<close>

lemma run0_generate:
  "run_steps (reset_steps @ staging_steps @ generate_steps env0) (start t0) = (None, s_gen0)"
  by code_simp

lemma run0_build: "run_steps (build_steps env0) s_gen0 = (None, s_built0)"
  by code_simp

lemma run0_combine: "run_steps combine_steps s_built0 = (None, s_comb0)"
  by code_simp

lemma run0_cleanup: "run_steps cleanup_steps s_comb0 = (None, s_clean0)"
  by code_simp

lemma run0_vendor: "run_steps vendor_steps s_clean0 = (None, s_final0)"
  by code_simp

lemma run0_settle: "settle env0 s_final0 = Inr s_final0"
  by code_simp

lemma run0_upto_cleanup:
  "run_steps (reset_steps @ staging_steps @ generate_steps env0 @ build_steps env0
      @ combine_steps @ cleanup_steps) (start t0) = (None, s_clean0)"
proof -
  have "run_steps ((reset_steps @ staging_steps @ generate_steps env0) @ build_steps env0
      @ combine_steps @ cleanup_steps) (start t0) = (None, s_clean0)"
    by (simp only: run_steps_append [where a = "reset_steps @ staging_steps @ generate_steps env0"]
        run_steps_append [where a = "build_steps env0"]
        run_steps_append [where a = combine_steps]
        run0_generate run0_build run0_combine run0_cleanup prod.case option.case)
  then show ?thesis by simp
qed

lemma run0_main: "main env0 t0 = (None, s_final0)"
proof -
  have "main_steps env0 = (reset_steps @ staging_steps @ generate_steps env0 @ build_steps env0
      @ combine_steps @ cleanup_steps) @ vendor_steps"
    by (simp add: main_steps_def)
  then have "run_steps (main_steps env0) (start t0) = (None, s_final0)"
    by (simp only: run_steps_append [where b = vendor_steps] run0_upto_cleanup run0_vendor
        prod.case option.case)
  then show ?thesis by (simp add: main_def run0_settle)
qed

section \<open>The claims\<close>

subsection \<open>The staging copy\<close>

lemma run1_reset: "run_steps reset_steps (start t1) = (None, s1_reset)"
  by code_simp

lemma run1_webrepl: "run_steps (reset_steps @ [stage_webrepl]) (start t1) = (None, s1)"
  by code_simp

lemma run1_staging:
  "run_steps staging_steps s1_reset = (Some (ENOENT [''assets'']), s1)"
  by code_simp

lemma t0_entries:
  "lookup t0 [''build'', ''assets'', ''logo.png''] = Some (File ''old'')
   \<and> lookup t0 [''assets'', ''logo.png''] = Some (File ''new'')"
  by code_simp

lemma s_final0_entries:
  "lookup (files s_final0) [''build'', ''index.html'']
     = Some (File (''<html>'' @ style_block ''a{}'' @ ''</html>''))
   \<and> lookup (files s_final0) [''build'', ''assets'', ''logo.png''] = Some (File ''new'')"
  by code_simp

lemma cpSync_t0:
  "cpSync [''assets''] [''build'', ''assets'']
     \<lparr>recursive = True, errorOnExist = True, force = True\<rparr> t0
   = Inr (store [''build'', ''assets'', ''logo.png''] (File ''new'') t0)"
  by code_simp

text \<open>
  C1, as the script has it. The Reset stage deletes the build directory and makes it
  anew, so when it has completed and the static asset tree is copied, the directory
  \<^verbatim>\<open>build/assets\<close> has no entry, whatever the build directory held before the run.
  Whenever, after the Reset stage has completed, a statement of the staging stage
  throws, the run ends with that error before any external command has been started,
  and the build directory holds nothing but \<^verbatim>\<open>assets\<close> and \<^verbatim>\<open>webrepl_content.js\<close>: no
  HTML document. Nothing is said of a run whose Reset stage throws.
\<close>

theorem staging_failure_aborts_before_tools:
  "(\<forall>st3. run_steps (reset_steps @ [stage_webrepl]) (start t) = (None, st3) \<longrightarrow>
       (\<forall>p. strict_prefix [''build'', ''assets''] p \<longrightarrow> lookup (files st3) p = None))
   \<and> (\<forall>st0 e st. run_steps reset_steps (start t) = (None, st0)
         \<and> run_steps staging_steps st0 = (Some e, st) \<longrightarrow>
         main E t = (Some e, st) \<and> log st = []
         \<and> (\<forall>n. lookup (files st) [''build'', n] \<noteq> None \<longrightarrow>
                n = ''assets'' \<or> n = ''webrepl_content.js''))"
proof (intro conjI allI impI)
  fix st3 p
  assume run: "run_steps (reset_steps @ [stage_webrepl]) (start t) = (None, st3)"
    and p: "strict_prefix [''build'', ''assets''] p"
  from run obtain u where
    "files st3 = store [''build'', ''webrepl_content.js''] (File u)
       (store [''build'', ''assets''] Dir (store [''build''] Dir
         (filter (\<lambda>e. \<not> prefix [''build''] (fst e)) t)))"
    by (auto simp: run_steps_append reset_steps_run stage_webrepl_def lift_Inr_iff start_def
        copyFileSync_def bindE_def writeFileSync_def
        split: sum.splits option.splits node.splits if_splits)
  moreover from p have "p \<noteq> []" "p \<noteq> [''build'']" "p \<noteq> [''build'', ''assets'']"
      "p \<noteq> [''build'', ''webrepl_content.js'']" "prefix [''build''] p"
    by (auto simp: strict_prefix_def prefix_def)
  ultimately show "lookup (files st3) p = None"
    by (simp add: lookup_store lookup_rm)
next
  fix st0 e st
  assume both: "run_steps reset_steps (start t) = (None, st0)
    \<and> run_steps staging_steps st0 = (Some e, st)"
  then have run: "run_steps (reset_steps @ staging_steps) (start t) = (Some e, st)"
    by (simp only: run_steps_append [where a = reset_steps] prod.case option.case)
  have "main_steps E = (reset_steps @ staging_steps) @ (generate_steps E @ build_steps E
      @ combine_steps @ cleanup_steps @ vendor_steps)"
    by (simp add: main_steps_def)
  then show "main E t = (Some e, st)"
    using run by (simp add: main_def run_steps_append del: append_assoc)
  from staging_failure_state [OF run] show "log st = []" by simp
  fix n
  assume "lookup (files st) [''build'', n] \<noteq> None"
  with staging_failure_state [OF run] show "n = ''assets'' \<or> n = ''webrepl_content.js''"
    by (auto simp: lookup_store lookup_rm split: if_splits)
qed

text \<open>
  On the project without an asset tree the Reset stage completes and the copy throws:
  the run ends there, nothing was started, and the stale document of the earlier build
  is gone.
\<close>

theorem staging_failure_aborts_before_tools_witness:
  "run_steps (reset_steps @ [stage_webrepl]) (start t1) = (None, s1)
   \<and> lookup (files s1) [''build'', ''assets'', ''logo.png''] = None
   \<and> run_steps reset_steps (start t1) = (None, s1_reset)
   \<and> run_steps staging_steps s1_reset = (Some (ENOENT [''assets'']), s1)
   \<and> main env0 t1 = (Some (ENOENT [''assets'']), s1)
   \<and> log s1 = []
   \<and> lookup (files s1) [''build'', ''index.html''] = None"
proof -
  note T = staging_failure_aborts_before_tools [of t1 env0]
  from T run1_webrepl
  have "\<forall>p. strict_prefix [''build'', ''assets''] p \<longrightarrow> lookup (files s1) p = None"
    by blast
  then have a: "lookup (files s1) [''build'', ''assets'', ''logo.png''] = None"
    by simp
  from T run1_reset run1_staging
  have b: "main env0 t1 = (Some (ENOENT [''assets'']), s1) \<and> log s1 = []
      \<and> (\<forall>n. lookup (files s1) [''build'', n] \<noteq> None \<longrightarrow>
            n = ''assets'' \<or> n = ''webrepl_content.js'')"
    by blast
  then have "lookup (files s1) [''build'', ''index.html''] \<noteq> None \<longrightarrow>
      ''index.html'' = ''assets'' \<or> ''index.html'' = ''webrepl_content.js''"
    by blast
  then have c: "lookup (files s1) [''build'', ''index.html''] = None"
    by simp
  from a b c run1_webrepl run1_reset run1_staging show ?thesis by simp
qed

text \<open>
  C1 as stated fails. The destination \<^verbatim>\<open>build/assets/logo.png\<close> exists before the run,
  and the run does not abort: the linter and the bundler are started, the final document
  is produced, and the destination holds the new asset. The copy itself, applied to
  the same file system, overwrites the destination as well.
\<close>

theorem stale_destination_does_not_abort:
  "lookup t0 [''build'', ''assets'', ''logo.png''] = Some (File ''old'')
   \<and> lookup t0 [''assets'', ''logo.png''] = Some (File ''new'')
   \<and> main env0 t0 = (None, s_final0)
   \<and> log s_final0 =
       [Spawned ''npx eslint'',
        ArchiveWritten [''build'', ''assets'', ''tools_vfs.tar.gz''],
        ArchiveWritten [''build'', ''assets'', ''vm_vfs.tar.gz''],
        Spawned ''npm run build'']
   \<and> lookup (files s_final0) [''build'', ''index.html'']
       = Some (File (''<html>'' @ style_block ''a{}'' @ ''</html>''))
   \<and> lookup (files s_final0) [''build'', ''assets'', ''logo.png''] = Some (File ''new'')
   \<and> cpSync [''assets''] [''build'', ''assets'']
         \<lparr>recursive = True, errorOnExist = True, force = True\<rparr> t0
       = Inr (store [''build'', ''assets'', ''logo.png''] (File ''new'') t0)"
  using t0_entries s_final0_entries cpSync_t0 run0_main
  by (simp add: s_final0_def log0_def)

subsection \<open>The Document Inliner on well-formed documents\<close>

lemma doc2_once:
  "occurrences link_app_css doc2 = 1 \<and> occurrences link_viper_lib_css doc2 = 1
   \<and> occurrences script_app_js doc2 = 1 \<and> occurrences script_viper_lib_js doc2 = 1"
  by code_simp

lemma combine_t2:
  "combine [''build'', ''index.html''] t2 = Inr (store [''build'', ''index.html''] (File out2) t2)"
  by code_simp

lemma out2_contents:
  "readFile [''build'', ''app.js''] t2 = Inr ''f($&)''
   \<and> occurrences script_app_js out2 = 1 \<and> \<not> sublist (script_block ''f($&)'') out2"
  by code_simp

text \<open>
  C2 fails on the script. The document \<open>doc2\<close> contains each of the four placeholders
  exactly once, and the compiled script \<^verbatim>\<open>app.js\<close> contains the two characters \<^verbatim>\<open>$&\<close>.
  The replacement text is a template, so these two characters are expanded to the
  matched placeholder: the document written still contains the placeholder of \<^verbatim>\<open>app.js\<close>,
  and it does not contain the script block with the text of the file.
\<close>

theorem inliner_expands_dollar_patterns:
  "occurrences link_app_css doc2 = 1 \<and> occurrences link_viper_lib_css doc2 = 1
   \<and> occurrences script_app_js doc2 = 1 \<and> occurrences script_viper_lib_js doc2 = 1
   \<and> readFile [''build'', ''app.js''] t2 = Inr ''f($&)''
   \<and> combine [''build'', ''index.html''] t2
       = Inr (store [''build'', ''index.html''] (File out2) t2)
   \<and> occurrences script_app_js out2 = 1
   \<and> \<not> sublist (script_block ''f($&)'') out2"
  using doc2_once combine_t2 out2_contents by simp

subsection \<open>The archives and the linter\<close>

lemma s_gen0_entries:
  "lookup (files s_gen0) [''build'', ''assets'', ''tools_vfs.tar.gz''] = None
   \<and> lookup (files s_gen0) [''build'', ''assets'', ''vm_vfs.tar.gz''] = None
   \<and> map (tar_file \<circ> fst) (pending s_gen0)
       = [[''build'', ''assets'', ''tools_vfs.tar.gz''], [''build'', ''assets'', ''vm_vfs.tar.gz'']]
   \<and> lag env0 = 0"
  by code_simp

text \<open>
  C3 fails on the script. \<^verbatim>\<open>genTar\<close> starts the archiver without the \<^verbatim>\<open>sync\<close> option and
  drops the promise, so after the Generate stage the two archives are pending and not
  on disk. In the run on the sample project, where the event loop finishes them at the
  first opportunity, they are written only after the linter has been started.
\<close>

theorem linter_starts_before_archives_written:
  "run_steps (reset_steps @ staging_steps @ generate_steps env0) (start t0) = (None, s_gen0)
   \<and> lookup (files s_gen0) [''build'', ''assets'', ''tools_vfs.tar.gz''] = None
   \<and> lookup (files s_gen0) [''build'', ''assets'', ''vm_vfs.tar.gz''] = None
   \<and> map (tar_file \<circ> fst) (pending s_gen0)
       = [[''build'', ''assets'', ''tools_vfs.tar.gz''], [''build'', ''assets'', ''vm_vfs.tar.gz'']]
   \<and> lag env0 = 0
   \<and> main env0 t0 = (None, s_final0)
   \<and> log s_final0 =
       [Spawned ''npx eslint'',
        ArchiveWritten [''build'', ''assets'', ''tools_vfs.tar.gz''],
        ArchiveWritten [''build'', ''assets'', ''vm_vfs.tar.gz''],
        Spawned ''npm run build'']"
  using run0_generate s_gen0_entries run0_main
  by (simp add: s_final0_def log0_def)

subsection \<open>The Aggregator\<close>

lemma glob_t5: "glob_sync [''src'', ''lang''] t5 = [''__proto__.json'', ''en.json'']"
  by code_simp

lemma aggregate_t5:
  "aggregate env0 [''src'', ''lang''] t5 [''__proto__.json'', ''en.json''] []
     = Inr [(''en'', JObject [(''hello'', JString ''Hello'')])]"
  by (simp add: bindE_def readFile_def lookup_def t5_def JSON_parse_def env0_def assign_def
      basename_def suffix_def set_own_def array_index_def object_of_def)

lemma genTranslations_t5:
  "genTranslations env0 [''src'', ''lang''] [''build'', ''translations.json''] t5
     = Inr (store [''build'', ''translations.json''] (File (''en,'' @ [CHR 0x0A])) t5)"
proof -
  have "stringify env0 (JObject [(''en'', JObject [(''hello'', JString ''Hello'')])]) = ''en,''"
    by (simp add: env0_def)
  moreover have "writeFileSync [''build'', ''translations.json''] (''en,'' @ [CHR 0x0A]) t5
      = Inr (store [''build'', ''translations.json''] (File (''en,'' @ [CHR 0x0A])) t5)"
    by code_simp
  ultimately show ?thesis
    unfolding genTranslations_def glob_t5 aggregate_t5 bindE_def jsonfile_writeFileSync_def
    by simp
qed

text \<open>
  C5 fails on the script. The directory holds two documents with the recognised
  extension and distinct base names, \<^verbatim>\<open>__proto__.json\<close> and \<^verbatim>\<open>en.json\<close>. The assignment
  to the key \<^verbatim>\<open>__proto__\<close> creates no property, so the mapping written has one key and
  not two.
\<close>

theorem aggregator_drops_proto_key:
  "glob_sync [''src'', ''lang''] t5 = [''__proto__.json'', ''en.json'']
   \<and> aggregate env0 [''src'', ''lang''] t5 [''__proto__.json'', ''en.json''] []
       = Inr [(''en'', JObject [(''hello'', JString ''Hello'')])]
   \<and> genTranslations env0 [''src'', ''lang''] [''build'', ''translations.json''] t5
       = Inr (store [''build'', ''translations.json''] (File (''en,'' @ [CHR 0x0A])) t5)"
  using glob_t5 aggregate_t5 genTranslations_t5 by simp

subsection \<open>The Manifest Stamper\<close>



lemma internalize_plain:
  assumes "distinct (map fst tpl)" and "\<forall>k\<in>fst ` set tpl. array_index k = None"
    and "\<forall>v\<in>snd ` set tpl. internalize v = v"
  shows "internalize (JObject tpl) = JObject tpl"
proof -
  from assms(3) have "map (\<lambda>e. (fst e, internalize (snd e))) tpl = tpl"
    by (intro map_idI) auto
  with object_of_plain [OF assms(1,2)] show ?thesis by simp
qed










subsection \<open>Placeholders that are absent\<close>

text \<open>
  C7. The search is for the literal string: a replacement whose placeholder is not a
  part of the text returns the text as it is. After a run of the Inliner that did not
  throw, a second run on the same document does not throw either; and when none of the
  four placeholders is left in the document, the second run writes back the text it
  read.
\<close>

theorem inliner_skips_absent_targets:
  assumes "combine filePath t = Inr t'"
    and "readFile filePath t' = Inr content'"
  shows "(\<forall>p\<in>set placeholders. \<forall>r. \<not> sublist p content' \<longrightarrow> js_replace content' p r = content')
       \<and> (\<exists>t''. combine filePath t' = Inr t''
              \<and> ((\<forall>p\<in>set placeholders. \<not> sublist p content') \<longrightarrow>
                   readFile filePath t'' = Inr content'))"
proof -
  from combine_Inr_reads [OF assms(1)] obtain content c1 c2 j1 j2 where
    r: "readFile filePath t = Inr content"
       "readFile [''build'', ''app.css''] t = Inr c1"
       "readFile [''build'', ''viper_lib.css''] t = Inr c2"
       "readFile [''build'', ''app.js''] t = Inr j1"
       "readFile [''build'', ''viper_lib.js''] t = Inr j2"
    by blast
  from combine_Inr [OF r] assms(1) obtain x where t': "t' = store filePath (File x) t"
    by simp
  from r(1) have ne: "filePath \<noteq> []" by (auto simp: readFile_Inr_iff lookup_def)
  have keep: "\<exists>c. readFile q t' = Inr c" if "readFile q t = Inr d" for q d
    using that ne by (auto simp: readFile_Inr_iff t' lookup_store lookup_Nil)
  from keep r(2) obtain c1' where c1': "readFile [''build'', ''app.css''] t' = Inr c1'" by blast
  from keep r(3) obtain c2' where c2': "readFile [''build'', ''viper_lib.css''] t' = Inr c2'"
    by blast
  from keep r(4) obtain j1' where j1': "readFile [''build'', ''app.js''] t' = Inr j1'" by blast
  from keep r(5) obtain j2' where j2': "readFile [''build'', ''viper_lib.js''] t' = Inr j2'"
    by blast
  note second = combine_Inr [OF assms(2) c1' c2' j1' j2']
  have "readFile filePath (store filePath (File content') t') = Inr content'"
    using ne by (simp add: readFile_Inr_iff lookup_store)
  then have "(\<forall>p\<in>set placeholders. \<not> sublist p content') \<longrightarrow>
      (\<exists>t''. combine filePath t' = Inr t'' \<and> readFile filePath t'' = Inr content')"
    by (simp add: second placeholders_def js_replace_absent)
  moreover have "\<exists>t''. combine filePath t' = Inr t''"
    by (simp add: second)
  ultimately show ?thesis
    by (auto simp: js_replace_absent)
qed

lemma combine_t7:
  "combine [''build'', ''index.html''] t7 = Inr (store [''build'', ''index.html''] (File out7) t7)"
  by code_simp

lemma read_t7:
  "readFile [''build'', ''index.html''] (store [''build'', ''index.html''] (File out7) t7)
     = Inr out7"
  by code_simp

lemma out7_clean:
  "\<not> sublist link_app_css out7 \<and> \<not> sublist link_viper_lib_css out7
   \<and> \<not> sublist script_app_js out7 \<and> \<not> sublist script_viper_lib_js out7"
  by code_simp

text \<open>
  A document with one placeholder: the first run inlines the style sheet, the second run
  finds no placeholder and writes the same text.
\<close>

theorem inliner_skips_absent_targets_witness:
  "combine [''build'', ''index.html''] t7 = Inr (store [''build'', ''index.html''] (File out7) t7)
   \<and> readFile [''build'', ''index.html''] (store [''build'', ''index.html''] (File out7) t7)
       = Inr out7
   \<and> \<not> sublist link_app_css out7 \<and> \<not> sublist link_viper_lib_css out7
   \<and> \<not> sublist script_app_js out7 \<and> \<not> sublist script_viper_lib_js out7
   \<and> js_replace out7 link_app_css (style_block ''a{}'') = out7
   \<and> (\<exists>t''. combine [''build'', ''index.html'']
               (store [''build'', ''index.html''] (File out7) t7) = Inr t''
         \<and> readFile [''build'', ''index.html''] t'' = Inr out7)"
proof -
  note T = inliner_skips_absent_targets [OF combine_t7 read_t7]
  from out7_clean have none: "\<forall>p\<in>set placeholders. \<not> sublist p out7"
    by (simp add: placeholders_def)
  have "link_app_css \<in> set placeholders" by (simp add: placeholders_def)
  with T out7_clean have "js_replace out7 link_app_css (style_block ''a{}'') = out7"
    by blast
  moreover from T none
  have "\<exists>t''. combine [''build'', ''index.html'']
               (store [''build'', ''index.html''] (File out7) t7) = Inr t''
         \<and> readFile [''build'', ''index.html''] t'' = Inr out7"
    by blast
  ultimately show ?thesis using combine_t7 read_t7 out7_clean by blast
qed

subsection \<open>The Cleanup stage\<close>

text \<open>
  C8, as the script has it. When the Cleanup stage has run, the merged translations and
  the four compiled files no longer exist, and every other entry of the file system is
  as it was before the stage.
\<close>

theorem cleanup_removes_intermediates:
  assumes "run_steps cleanup_steps st = (None, st')"
  shows "(\<forall>p \<in> {[''build'', ''translations.json''], [''build'', ''app.css''],
                  [''build'', ''viper_lib.css''], [''build'', ''app.js''],
                  [''build'', ''viper_lib.js'']}. lookup (files st') p = None)
       \<and> (\<forall>q. q \<notin> {[''build'', ''translations.json''], [''build'', ''app.css''],
                  [''build'', ''viper_lib.css''], [''build'', ''app.js''],
                  [''build'', ''viper_lib.js'']} \<longrightarrow>
               lookup (files st') q = lookup (files st) q)"
proof -
  from assms obtain t1 t2 t3 t4 t5 where
    u: "unlinkSync [''build'', ''translations.json''] (files st) = Inr t1"
       "unlinkSync [''build'', ''app.css''] t1 = Inr t2"
       "unlinkSync [''build'', ''viper_lib.css''] t2 = Inr t3"
       "unlinkSync [''build'', ''app.js''] t3 = Inr t4"
       "unlinkSync [''build'', ''viper_lib.js''] t4 = Inr t5"
    and st': "files st' = t5"
    by (auto simp: cleanup_steps_def lift_def bindE_def split: sum.splits)
  have "lookup t5 q =
      (if q \<in> {[''build'', ''translations.json''], [''build'', ''app.css''],
                [''build'', ''viper_lib.css''], [''build'', ''app.js''],
                [''build'', ''viper_lib.js'']} then None else lookup (files st) q)" for q
    by (simp add: unlinkSync_Inr [OF u(5)] unlinkSync_Inr [OF u(4)] unlinkSync_Inr [OF u(3)]
        unlinkSync_Inr [OF u(2)] unlinkSync_Inr [OF u(1)])
  then show ?thesis by (simp add: st')
qed

text \<open>The Cleanup stage of the run on the sample project.\<close>

theorem cleanup_removes_intermediates_witness:
  "run_steps cleanup_steps s_comb0 = (None, s_clean0)
   \<and> lookup (files s_clean0) [''build'', ''translations.json''] = None
   \<and> lookup (files s_clean0) [''build'', ''app.css''] = None
   \<and> lookup (files s_clean0) [''build'', ''viper_lib.css''] = None
   \<and> lookup (files s_clean0) [''build'', ''app.js''] = None
   \<and> lookup (files s_clean0) [''build'', ''viper_lib.js''] = None
   \<and> lookup (files s_clean0) [''build'', ''index.html'']
       = lookup (files s_comb0) [''build'', ''index.html'']"
  using cleanup_removes_intermediates [OF run0_cleanup] run0_cleanup by simp

lemma s_clean0_entries:
  "lookup (files s_clean0) [''build'', ''manifest.json'']
     = Some (File (''name,version,'' @ [CHR 0x0A]))
   \<and> lookup (files s_clean0) [''build'', ''webrepl_content.js''] = Some (File ''w'')"
  by code_simp

text \<open>
  C8 as stated fails: after the Cleanup stage the build directory holds more than the
  documents and the assets directory. The stamped manifest and the copied script are
  still there.
\<close>

theorem cleanup_leaves_other_files:
  "run_steps (reset_steps @ staging_steps @ generate_steps env0 @ build_steps env0
      @ combine_steps @ cleanup_steps) (start t0) = (None, s_clean0)
   \<and> lookup (files s_clean0) [''build'', ''manifest.json'']
       = Some (File (''name,version,'' @ [CHR 0x0A]))
   \<and> lookup (files s_clean0) [''build'', ''webrepl_content.js''] = Some (File ''w'')"
  using run0_upto_cleanup s_clean0_entries by simp

subsection \<open>Compiled files that are missing\<close>

text \<open>
  C9. The Inliner reads the four compiled files whatever the document contains: when
  one of them does not exist the call throws, for every document, and nothing is
  written.
\<close>

theorem combine_reads_all_four:
  assumes "p \<in> {[''build'', ''app.css''], [''build'', ''viper_lib.css''],
                 [''build'', ''app.js''], [''build'', ''viper_lib.js'']}"
    and "lookup t p = None"
  shows "\<exists>e. combine filePath t = Inl e"
proof -
  from assms(2) obtain e where "readFile p t = Inl e" by (simp add: readFile_def)
  with assms(1) show ?thesis
    by (auto simp: combine_def bindE_def split: sum.splits)
qed

lemma t9_missing:
  "lookup t9 [''build'', ''app.js''] = None \<and> \<not> sublist script_app_js ''<html></html>''
   \<and> readFile [''build'', ''index.html''] t9 = Inr ''<html></html>''"
  by code_simp

text \<open>A document without any placeholder, in a build directory without \<^verbatim>\<open>app.js\<close>.\<close>

theorem combine_reads_all_four_witness:
  "lookup t9 [''build'', ''app.js''] = None
   \<and> \<not> sublist script_app_js ''<html></html>''
   \<and> readFile [''build'', ''index.html''] t9 = Inr ''<html></html>''
   \<and> (\<exists>e. combine [''build'', ''index.html''] t9 = Inl e)"
proof -
  from t9_missing have "lookup t9 [''build'', ''app.js''] = None" by blast
  from combine_reads_all_four [OF _ this, of "[''build'', ''index.html'']"]
  have "\<exists>e. combine [''build'', ''index.html''] t9 = Inl e" by simp
  with t9_missing show ?thesis by blast
qed

subsection \<open>Repeated placeholders\<close>

text \<open>
  C10. Let \<open>p\<close> be one of the four placeholders. A replacement of \<open>p\<close> in a text that
  contains it keeps the text before the first occurrence, puts the expanded replacement
  in its place and keeps all the text after it; every other occurrence of \<open>p\<close> lies in
  that text after it. For the Inliner as a whole, the document written contains \<open>p\<close> at
  least as often as the document read did, less one.
\<close>

theorem replace_only_first_occurrence:
  assumes "p \<in> set placeholders"
  shows "(\<forall>s r k. indexOf s p = Some k \<longrightarrow>
            js_replace s p r = take k s @ getSubstitution p s k r @ drop (k + length p) s
            \<and> (\<forall>j. prefix p (drop j s) \<and> j \<noteq> k \<longrightarrow> k + length p \<le> j))
       \<and> (\<forall>filePath t t' content content'.
            readFile filePath t = Inr content \<and> combine filePath t = Inr t'
            \<and> readFile filePath t' = Inr content' \<longrightarrow>
            occurrences p content - 1 \<le> occurrences p content')"
proof (intro conjI allI impI)
  fix s r k
  assume k: "indexOf s p = Some k"
  then show "js_replace s p r = take k s @ getSubstitution p s k r @ drop (k + length p) s"
    by (simp add: js_replace_def)
  fix j
  assume j: "prefix p (drop j s) \<and> j \<noteq> k"
  from indexOf_Some [OF k] have pk: "prefix p (drop k s)" and least: "\<forall>i<k. \<not> prefix p (drop i s)"
    by simp_all
  from j have "j \<noteq> k \<or> p \<noteq> p" by simp
  from placeholders_apart [OF assms assms _ pk this] j
  have "j + length p \<le> k \<or> k + length p \<le> j" by simp
  moreover from j least have "\<not> j < k" by blast
  moreover from placeholders_nonempty [OF assms] have "0 < length p" by simp
  ultimately show "k + length p \<le> j" by linarith
next
  fix filePath t t' content content'
  assume a: "readFile filePath t = Inr content \<and> combine filePath t = Inr t'
      \<and> readFile filePath t' = Inr content'"
  from a combine_Inr_reads [of filePath t t'] obtain c1 c2 j1 j2 where
    r: "readFile [''build'', ''app.css''] t = Inr c1"
       "readFile [''build'', ''viper_lib.css''] t = Inr c2"
       "readFile [''build'', ''app.js''] t = Inr j1"
       "readFile [''build'', ''viper_lib.js''] t = Inr j2"
    by blast
  define d1 where "d1 = js_replace content link_app_css (style_block c1)"
  define d2 where "d2 = js_replace d1 link_viper_lib_css (style_block c2)"
  define d3 where "d3 = js_replace d2 script_app_js (script_block j1)"
  define d4 where "d4 = js_replace d3 script_viper_lib_js (script_block j2)"
  from a have c: "readFile filePath t = Inr content" by simp
  from c have ne: "filePath \<noteq> []" by (auto simp: readFile_Inr_iff lookup_def)
  from combine_Inr [OF c r] a have "t' = store filePath (File d4) t"
    by (simp add: d1_def d2_def d3_def d4_def)
  with a ne have out: "content' = d4"
    by (simp add: readFile_Inr_iff lookup_store)
  have mem: "link_app_css \<in> set placeholders" "link_viper_lib_css \<in> set placeholders"
      "script_app_js \<in> set placeholders" "script_viper_lib_js \<in> set placeholders"
    by (simp_all add: placeholders_def)
  have s1: "occurrences p content - (if p = link_app_css then 1 else 0) \<le> occurrences p d1"
    using replace_step [OF assms mem(1), of content "style_block c1"] by (simp add: d1_def)
  have s2: "occurrences p d1 - (if p = link_viper_lib_css then 1 else 0) \<le> occurrences p d2"
    using replace_step [OF assms mem(2), of d1 "style_block c2"] by (simp add: d2_def)
  have s3: "occurrences p d2 - (if p = script_app_js then 1 else 0) \<le> occurrences p d3"
    using replace_step [OF assms mem(3), of d2 "script_block j1"] by (simp add: d3_def)
  have s4: "occurrences p d3 - (if p = script_viper_lib_js then 1 else 0) \<le> occurrences p d4"
    using replace_step [OF assms mem(4), of d3 "script_block j2"] by (simp add: d4_def)
  have distinct: "distinct placeholders" by code_simp
  then have dis: "link_app_css \<noteq> link_viper_lib_css" "link_app_css \<noteq> script_app_js"
      "link_app_css \<noteq> script_viper_lib_js" "link_viper_lib_css \<noteq> script_app_js"
      "link_viper_lib_css \<noteq> script_viper_lib_js" "script_app_js \<noteq> script_viper_lib_js"
    by (auto simp: placeholders_def)
  from assms consider "p = link_app_css" | "p = link_viper_lib_css" | "p = script_app_js"
    | "p = script_viper_lib_js"
    by (auto simp: placeholders_def)
  then have "occurrences p content - 1 \<le> occurrences p d4"
  proof cases
    case 1
    with s1 s2 s3 s4 dis show ?thesis by simp
  next
    case 2
    with s1 s2 s3 s4 dis show ?thesis by simp
  next
    case 3
    with s1 s2 s3 s4 dis show ?thesis by simp
  next
    case 4
    with s1 s2 s3 s4 dis show ?thesis by simp
  qed
  then show "occurrences p content - 1 \<le> occurrences p content'" by (simp add: out)
qed

lemma doc10_facts:
  "indexOf doc10 link_app_css = Some 0
   \<and> prefix link_app_css (drop 41 doc10)
   \<and> length link_app_css = 40
   \<and> getSubstitution link_app_css doc10 0 (style_block ''a{}'') = style_block ''a{}''
   \<and> drop 40 doc10 = ''+'' @ link_app_css
   \<and> occurrences link_app_css doc10 = 2
   \<and> occurrences link_app_css out10 = 1"
  by code_simp

lemma combine_t10:
  "readFile [''build'', ''index.html''] t10 = Inr doc10
   \<and> combine [''build'', ''index.html''] t10
       = Inr (store [''build'', ''index.html''] (File out10) t10)
   \<and> readFile [''build'', ''index.html''] (store [''build'', ''index.html''] (File out10) t10)
       = Inr out10"
  by code_simp

text \<open>
  A document with the same placeholder twice: the first is inlined, the second is still
  there after the run.
\<close>

theorem replace_only_first_occurrence_witness:
  "link_app_css \<in> set placeholders
   \<and> indexOf doc10 link_app_css = Some 0
   \<and> js_replace doc10 link_app_css (style_block ''a{}'')
       = style_block ''a{}'' @ ''+'' @ link_app_css
   \<and> prefix link_app_css (drop 41 doc10)
   \<and> 0 + length link_app_css \<le> (41 :: nat)
   \<and> combine [''build'', ''index.html''] t10
       = Inr (store [''build'', ''index.html''] (File out10) t10)
   \<and> occurrences link_app_css doc10 = 2
   \<and> occurrences link_app_css out10 = 1
   \<and> occurrences link_app_css doc10 - 1 \<le> occurrences link_app_css out10"
proof -
  have mem: "link_app_css \<in> set placeholders" by (simp add: placeholders_def)
  note T = replace_only_first_occurrence [OF mem]
  from doc10_facts have k: "indexOf doc10 link_app_css = Some 0" by blast
  from T k have
    "js_replace doc10 link_app_css (style_block ''a{}'')
       = take 0 doc10 @ getSubstitution link_app_css doc10 0 (style_block ''a{}'')
         @ drop (0 + length link_app_css) doc10"
    by blast
  with doc10_facts have a: "js_replace doc10 link_app_css (style_block ''a{}'')
       = style_block ''a{}'' @ ''+'' @ link_app_css"
    by simp
  from doc10_facts have "prefix link_app_css (drop 41 doc10) \<and> (41::nat) \<noteq> 0" by simp
  with T k have b: "0 + length link_app_css \<le> (41 :: nat)" by blast
  from T combine_t10
  have c: "occurrences link_app_css doc10 - 1 \<le> occurrences link_app_css out10" by blast
  from mem k a b c doc10_facts combine_t10 show ?thesis by blast
qed

end
